theory Spec2Isabelle
  imports Main "HOL-Library.Multiset" "HOL-Library.Char_ord" "HOL-Library.List_Lexorder"
begin

section \<open>Ordered multiset partitions: the data model\<close>

text \<open>
  An ordered multiset partition (class \<open>OrderedMultisetPartition\<close>) is a list of blocks.
  A block is a Sage \<open>Set\<close>; it is held here as the strictly increasing list of its
  elements, so that equality of lists is equality of sets. The constructor
  \<open>OrderedMultisetPartition.__init__\<close> deletes empty blocks and the parent's
  \<open>_has_valid_blocks\<close> refuses a block with a repeated entry, which is the invariant
  \<open>valid_omp\<close>.
\<close>

datatype error =
  IndexError | ValueError | UnboundLocalError | AssertionError | KeyError | TypeError
  | ZeroDivisionError

type_synonym 'a omp = "'a list list"

definition valid_block :: "('a::linorder) list \<Rightarrow> bool" where
  "valid_block b = (b \<noteq> [] \<and> sorted b \<and> distinct b)"

definition valid_omp :: "('a::linorder) omp \<Rightarrow> bool" where
  "valid_omp c = list_all valid_block c"

text \<open>\<open>Set(xs)\<close>: the set of the entries of \<open>xs\<close>.\<close>

definition Set_of :: "('a::linorder) list \<Rightarrow> 'a list" where
  "Set_of xs = sorted_list_of_set (set xs)"

text \<open>\<open>_concatenate\<close> and \<open>_get_multiset\<close> (a sorted tuple).\<close>

definition concatenate :: "'a list list \<Rightarrow> 'a list" where
  "concatenate list_of_iters = concat list_of_iters"

definition get_multiset :: "('a::linorder) list list \<Rightarrow> 'a list" where
  "get_multiset co = sort (concatenate co)"

text \<open>\<open>_descents\<close>: the positions \<open>j\<close> in \<open>range(len(w)-1)\<close> with \<open>w[j] > w[j+1]\<close>.\<close>

definition descents :: "('a::linorder) list \<Rightarrow> nat list" where
  "descents w = filter (\<lambda>j. w ! j > w ! (j + 1)) [0..<length w - 1]"

text \<open>\<open>_partial_sum\<close>.\<close>

fun partial_sum_from :: "nat \<Rightarrow> nat list \<Rightarrow> nat list" where
  "partial_sum_from s [] = [s]"
| "partial_sum_from s (x # xs) = s # partial_sum_from (s + x) xs"

definition partial_sum :: "nat list \<Rightarrow> nat list" where
  "partial_sum lst = partial_sum_from 0 lst"

section \<open>The minimaj ordering of blocks\<close>

text \<open>
  One turn of the loop of \<open>minimaj_blocks\<close>, for the block \<open>B = self[-1-i]\<close> and the list
  \<open>C\<close> built so far. \<open>C[0][0]\<close> is read once for every entry of \<open>B\<close>, so it raises
  \<open>IndexError\<close> when \<open>B\<close> has an entry and \<open>C[0]\<close> has none.
\<close>

definition minimaj_step :: "('a::linorder) list \<Rightarrow> 'a list list \<Rightarrow> error + 'a list list" where
  "minimaj_step B C =
     (if B = [] then Inr ([] # C)
      else (case C of
              [] \<Rightarrow> Inl IndexError
            | [] # _ \<Rightarrow> Inl IndexError
            | (x # _) # _ \<Rightarrow>
                Inr ((sort (filter (\<lambda>j. \<not> j \<le> x) B) @ sort (filter (\<lambda>j. j \<le> x) B)) # C)))"

fun minimaj_loop :: "('a::linorder) list list \<Rightarrow> 'a list list \<Rightarrow> error + 'a list list" where
  "minimaj_loop [] C = Inr C"
| "minimaj_loop (B # Bs) C =
     (case minimaj_step B C of Inl e \<Rightarrow> Inl e | Inr C' \<Rightarrow> minimaj_loop Bs C')"

text \<open>The blocks \<open>self[-1-i]\<close> for \<open>i = 1, ..., len(self)-1\<close> are \<open>rev (butlast c)\<close>.\<close>

definition minimaj_blocks :: "('a::linorder) omp \<Rightarrow> error + 'a list list" where
  "minimaj_blocks c =
     (if length c = 0 then Inr [] else minimaj_loop (rev (butlast c)) [sort (last c)])"

definition minimaj_word :: "('a::linorder) omp \<Rightarrow> error + 'a list" where
  "minimaj_word c = (case minimaj_blocks c of Inl e \<Rightarrow> Inl e | Inr bb \<Rightarrow> Inr (concatenate bb))"

definition minimaj :: "('a::linorder) omp \<Rightarrow> error + nat" where
  "minimaj c =
     (case minimaj_word c of
        Inl e \<Rightarrow> Inl e
      | Inr w \<Rightarrow> (let D = descents w in Inr (sum_list D + length D)))"


text \<open>The partition of the docstrings of \<open>minimaj\<close> and \<open>minimaj_blocks\<close>.\<close>

definition example_omp :: "int omp" where
  "example_omp = [[1,5,7],[2,4],[5,6],[4,6,8],[1,3],[1,2,3]]"

section \<open>External enumerators\<close>

text \<open>
  Modelled from the spec: the composition enumerator \<open>Compositions(n)\<close> (an external
  collaborator, not among the source files): every list of positive integers with sum
  \<open>n\<close>, each once.
\<close>

fun Compositions :: "nat \<Rightarrow> nat list list" where
  "Compositions 0 = [[]]"
| "Compositions (Suc n) =
     concat (map (\<lambda>k. map (\<lambda>alpha. Suc k # alpha) (Compositions (n - k))) [0..<Suc n])"

text \<open>
  Modelled from the spec: \<open>IntegerListsLex(min_part=0, max_part=m-1, length=n)\<close>, every
  list of length \<open>n\<close> with entries in \<open>{0, ..., m-1}\<close>; with \<open>min_slope=0\<close> only the weakly
  increasing ones.
\<close>

definition IntegerListsLex :: "nat \<Rightarrow> nat \<Rightarrow> bool \<Rightarrow> nat list list" where
  "IntegerListsLex n m min_slope0 =
     filter (\<lambda>w. min_slope0 \<longrightarrow> sorted w) (List.n_lists n [0..<m])"

text \<open>Modelled from the spec: \<open>cartesian_product\<close> of a list of finite enumerations.\<close>

fun cartesian_product :: "'a list list \<Rightarrow> 'a list list" where
  "cartesian_product [] = [[]]"
| "cartesian_product (xs # xss) =
     concat (map (\<lambda>x. map (\<lambda>t. x # t) (cartesian_product xss)) xs)"

section \<open>Families of a fixed multiset and their elements\<close>

text \<open>
  \<open>_get_weight\<close>: a dictionary from letters to frequencies, held as the list of its
  items in increasing order of the keys (equal dictionaries are equal lists).
\<close>

definition get_weight :: "('a::linorder) list \<Rightarrow> ('a \<times> nat) list" where
  "get_weight lst = map (\<lambda>k. (k, count_list lst k)) (sorted_list_of_set (set lst))"

text \<open>\<open>OrderedMultisetPartitions._has_valid_blocks\<close>.\<close>

definition has_valid_blocks :: "('a::linorder) list list \<Rightarrow> bool" where
  "has_valid_blocks x =
     list_all (\<lambda>block. \<not> (block = [] \<or> length (Set_of block) \<noteq> length block)) x"

text \<open>\<open>OrderedMultisetPartitions_X._has_valid_blocks\<close>, for the family of \<open>_Xtup\<close>.\<close>

definition has_valid_blocks_X :: "('a::linorder) list \<Rightarrow> 'a list list \<Rightarrow> bool" where
  "has_valid_blocks_X Xtup x = (has_valid_blocks x \<and> get_multiset x = Xtup)"

text \<open>
  \<open>P(lst)\<close> for \<open>P = OrderedMultisetPartitions(Xtup)\<close> and a list of blocks:
  \<open>_element_constructor_\<close> raises unless \<open>lst in P\<close>; the element's \<open>__init__\<close> deletes
  empty blocks and turns every block into a \<open>Set\<close>.
\<close>

definition element_X :: "('a::linorder) list \<Rightarrow> 'a list list \<Rightarrow> error + 'a omp" where
  "element_X Xtup lst =
     (if has_valid_blocks_X Xtup lst
      then Inr (map Set_of (filter (\<lambda>block. block \<noteq> []) lst))
      else Inl AssertionError)"

text \<open>Running a fallible function over a list, stopping at the first error.\<close>

fun map_result :: "('a \<Rightarrow> error + 'b) \<Rightarrow> 'a list \<Rightarrow> error + 'b list" where
  "map_result f [] = Inr []"
| "map_result f (x # xs) =
     (case f x of
        Inl e \<Rightarrow> Inl e
      | Inr y \<Rightarrow> (case map_result f xs of Inl e \<Rightarrow> Inl e | Inr ys \<Rightarrow> Inr (y # ys)))"

section \<open>Refinements and coarsenings\<close>

text \<open>
  \<open>_is_initial_segment(sorted(set(w)))\<close>; \<open>max\<close> of an empty list raises \<open>ValueError\<close>.
\<close>

definition is_initial_segment :: "nat list \<Rightarrow> error + bool" where
  "is_initial_segment lst =
     (if lst = [] then Inl ValueError else Inr ([0..<Max (set lst) + 1] = lst))"

text \<open>
  \<open>_refine_block\<close>, given \<open>X = list(S)\<close>: the elements of the block in the order in which the
  \<open>Set\<close> lists them, which the increasing list that holds the block does not tell. For a
  word \<open>w\<close> whose labels form an initial segment, the letters at the positions labelled
  \<open>l\<close> make the \<open>l\<close>-th piece, for \<open>l = 0, ..., max(w)\<close>.
\<close>

definition refine_word :: "('a::linorder) list \<Rightarrow> nat list \<Rightarrow> 'a list list" where
  "refine_word X w =
     map (\<lambda>l. Set_of (map (\<lambda>pos. X ! pos) (filter (\<lambda>pos. w ! pos = l) [0..<length X])))
       [0..<Max (set w) + 1]"

fun refine_words :: "('a::linorder) list \<Rightarrow> nat list list \<Rightarrow> error + 'a list list list" where
  "refine_words X [] = Inr []"
| "refine_words X (w # ws) =
     (case is_initial_segment (sorted_list_of_set (set w)) of
        Inl e \<Rightarrow> Inl e
      | Inr ok \<Rightarrow>
          (case refine_words X ws of
             Inl e \<Rightarrow> Inl e
           | Inr out \<Rightarrow> Inr (if ok then refine_word X w # out else out)))"

definition refine_block :: "('a::linorder) list \<Rightarrow> bool \<Rightarrow> error + 'a list list list" where
  "refine_block X strong = refine_words X (IntegerListsLex (length X) (length X) strong)"

text \<open>
  \<open>finer\<close>: the result is a \<open>Set\<close> of partitions, held as the list of its members (the
  set of the list is the \<open>Set\<close>). \<open>listing\<close> is \<open>list(S)\<close> for the blocks \<open>S\<close>: the order in
  which a \<open>Set\<close> lists its elements.
\<close>

definition finer :: "(('a::linorder) list \<Rightarrow> 'a list) \<Rightarrow> 'a omp \<Rightarrow> bool \<Rightarrow> error + 'a omp list" where
  "finer listing c strong =
     (if c = [] then Inr [c]
      else (case map_result (\<lambda>block. refine_block (listing block) strong) c of
              Inl e \<Rightarrow> Inl e
            | Inr rs \<Rightarrow>
                map_result (\<lambda>t. element_X (get_multiset c) (concatenate t))
                  (cartesian_product rs)))"

text \<open>\<open>self[i:j]\<close> for \<open>0 \<le> i\<close> and \<open>0 \<le> j\<close>.\<close>

definition slice :: "'a list \<Rightarrow> nat \<Rightarrow> nat \<Rightarrow> 'a list" where
  "slice xs i j = take (j - i) (drop i xs)"

definition fatten :: "('a::linorder) omp \<Rightarrow> nat list \<Rightarrow> error + 'a omp" where
  "fatten c grouping =
     (if sum_list grouping \<noteq> length c then Inl ValueError
      else
        (let results =
               map (\<lambda>i. slice c (sum_list (take i grouping)) (sum_list (take (i + 1) grouping)))
                 [0..<length grouping];
             valid =
               list_all (\<lambda>result_i.
                   \<not> length (Set_of (concat result_i)) < sum_list (map length result_i))
                 results
         in if \<not> valid then Inl ValueError
            else element_X (get_multiset c) (map concatenate results)))"

text \<open>\<open>fatter\<close> passes over a \<open>ValueError\<close> of \<open>fatten\<close> and over no other error.\<close>

fun fatter_loop :: "('a::linorder) omp \<Rightarrow> nat list list \<Rightarrow> error + 'a omp list" where
  "fatter_loop c [] = Inr []"
| "fatter_loop c (g # gs) =
     (case fatten c g of
        Inl e \<Rightarrow> (if e = ValueError then fatter_loop c gs else Inl e)
      | Inr d \<Rightarrow> (case fatter_loop c gs of Inl e \<Rightarrow> Inl e | Inr ds \<Rightarrow> Inr (d # ds)))"

definition fatter :: "('a::linorder) omp \<Rightarrow> error + 'a omp list" where
  "fatter c = fatter_loop c (Compositions (length c))"

text \<open>
  \<open>is_finer\<close>. The two loops that trim the common prefix and suffix read \<open>co1[0]\<close>,
  \<open>co2[0]\<close>, \<open>co1[-1]\<close> and \<open>co2[-1]\<close> with no test for an empty list.
\<close>

fun trim_prefix :: "'a list \<Rightarrow> 'a list \<Rightarrow> error + ('a list \<times> 'a list)" where
  "trim_prefix [] co2 = Inl IndexError"
| "trim_prefix (a # co1) [] = Inl IndexError"
| "trim_prefix (a # co1) (b # co2) =
     (if a = b then trim_prefix co1 co2 else Inr (a # co1, b # co2))"

function trim_suffix :: "'a list \<Rightarrow> 'a list \<Rightarrow> error + ('a list \<times> 'a list)" where
  "trim_suffix co1 co2 =
     (if co1 = [] \<or> co2 = [] then Inl IndexError
      else if last co1 = last co2 then trim_suffix (butlast co1) (butlast co2)
      else Inr (co1, co2))"
  by pat_completeness auto
termination
  by (relation "measure (\<lambda>(co1, co2). length co1)") auto

declare trim_suffix.simps [simp del]

definition is_finer :: "(('a::linorder) list \<Rightarrow> 'a list) \<Rightarrow> 'a omp \<Rightarrow> 'a list list \<Rightarrow> error + bool" where
  "is_finer listing self co =
     (case element_X (get_multiset co) co of
        Inl e \<Rightarrow> Inl e
      | Inr co' \<Rightarrow>
          if get_weight (get_multiset self) \<noteq> get_weight (get_multiset co') then Inr False
          else
            (case trim_prefix (map Set_of self) (map Set_of co) of
               Inl e \<Rightarrow> Inl e
             | Inr (co1, co2) \<Rightarrow>
                 (case trim_suffix co1 co2 of
                    Inl e \<Rightarrow> Inl e
                  | Inr (co1', co2') \<Rightarrow>
                      (case finer listing co2' False of
                         Inl e \<Rightarrow> Inl e
                       | Inr F \<Rightarrow> Inr (co1' \<in> set F)))))"

text \<open>Auxiliary notions of the proofs: the test of \<open>_refine_block\<close> on a word, the pieces it keeps for
  a block, and the consecutive slices \<open>fatten\<close> takes for a grouping.\<close>

definition initial_labels :: "nat list \<Rightarrow> bool" where
  "initial_labels w = ([0..<Max (set w) + 1] = sorted_list_of_set (set w))"

definition refinements :: "('a::linorder) list \<Rightarrow> 'a list list list" where
  "refinements X =
     map (refine_word X) (filter initial_labels (IntegerListsLex (length X) (length X) False))"

fun chunks :: "nat list \<Rightarrow> 'a list \<Rightarrow> 'a list list" where
  "chunks [] c = []"
| "chunks (k # g) c = take k c # chunks g (drop k c)"

text \<open>The partition of the docstrings of \<open>fatten\<close> and \<open>fatter\<close>.\<close>

definition docstring_omp :: "int omp" where
  "docstring_omp = [[1,4,5],[2],[1,7]]"

section \<open>The soll ordering\<close>

text \<open>
  \<open>size()\<close> is \<open>self._n\<close>: the sum of the letters when every letter is a positive integer,
  and \<open>None\<close> otherwise. \<open>order()\<close> is the total number of letters. Letters are integers
  here; a letter that is not a positive integer stands for the non-numeric case.
\<close>

definition size_omp :: "int omp \<Rightarrow> int option" where
  "size_omp c =
     (if list_all (\<lambda>a. a > 0) (get_multiset c) then Some (sum_list (get_multiset c)) else None)"

definition order_omp :: "'a omp \<Rightarrow> nat" where
  "order_omp c = sum_list (map length c)"

text \<open>Python 2 orders \<open>None\<close> below every integer.\<close>

fun py2_gt :: "int option \<Rightarrow> int option \<Rightarrow> bool" where
  "py2_gt None _ = False"
| "py2_gt (Some a) None = True"
| "py2_gt (Some a) (Some b) = (a > b)"

text \<open>The truth value of \<open>self._n\<close>: neither \<open>None\<close> nor zero.\<close>

fun truthy :: "int option \<Rightarrow> bool" where
  "truthy None = False"
| "truthy (Some n) = (n \<noteq> 0)"

text \<open>\<open>str\<close> of an integer, in decimal.\<close>

function str_nat :: "nat \<Rightarrow> string" where
  "str_nat n =
     (if n < 10 then [char_of (48 + n)] else str_nat (n div 10) @ [char_of (48 + n mod 10)])"
  by pat_completeness auto

termination
  by (relation "measure (\<lambda>n. n)") auto

declare str_nat.simps [simp del]

definition str :: "int \<Rightarrow> string" where
  "str i = (if i < 0 then CHR ''-'' # str_nat (nat (- i)) else str_nat (nat i))"

text \<open>
  \<open>soll_gt\<close>. When both sizes are nonzero integers the branch taken binds \<open>co1\<close> and \<open>co2\<close>
  and leaves \<open>w1\<close> and \<open>w2\<close> unbound, so that \<open>return w1 > w2\<close> raises
  \<open>UnboundLocalError\<close>. In the other branch a block becomes the word of the strings of
  its sorted letters; words, and lists of words, compare lexicographically.
\<close>

definition soll_gt :: "int omp \<Rightarrow> int omp \<Rightarrow> error + bool" where
  "soll_gt co1 co2 =
     (if py2_gt (size_omp co1) (size_omp co2) then Inr True
      else if py2_gt (size_omp co2) (size_omp co1) then Inr False
      else if order_omp co1 > order_omp co2 then Inr True
      else if order_omp co1 < order_omp co2 then Inr False
      else if length co1 > length co2 then Inr True
      else if length co1 < length co2 then Inr False
      else if truthy (size_omp co1) \<and> truthy (size_omp co2) then Inl UnboundLocalError
      else Inr (map (\<lambda>k. map str (sort k)) co1 > map (\<lambda>k. map str (sort k)) co2))"

text \<open>The partitions \<open>C\<close>, \<open>D1\<close>, \<open>D2\<close>, \<open>D3\<close> and \<open>D4\<close> of the docstring of \<open>soll_gt\<close>.\<close>

definition soll_C :: "int omp" where
  "soll_C = [[1,2],[1,2,3],[1,2],[3],[1]]"

definition soll_D1 :: "int omp" where
  "soll_D1 = [[2,4],[2,3]]"

definition soll_D2 :: "int omp" where
  "soll_D2 = [[1,2],[1,2,3],[1,2],[1],[1,2]]"

definition soll_D3 :: "int omp" where
  "soll_D3 = [[1],[1,2,3],[1,2,3],[1,2]]"

definition soll_D4 :: "int omp" where
  "soll_D4 = [[1,2],[2,3],[1,3],[1,2],[1]]"

section \<open>Enumeration and cardinality for a fixed multiset\<close>

text \<open>
  Modelled from the spec: the multiset-permutation enumerator \<open>Permutations_mset\<close> (an
  external collaborator, not among the source files): every rearrangement of the
  multiset, each once.
\<close>

function Permutations_mset :: "'a list \<Rightarrow> 'a list list" where
  "Permutations_mset xs =
     (if xs = [] then [[]]
      else concat (map (\<lambda>x. map (\<lambda>p. x # p) (Permutations_mset (remove1 x xs))) (remdups xs)))"
  by pat_completeness auto

termination
  by (relation "measure length") (auto simp: length_remove1 intro: diff_less length_pos_if_in_set)

text \<open>
  \<open>_break_at_descents\<close>: the loop over \<open>i = 1, ..., len(alpha)-1\<close>, with the entries from
  \<open>alpha[i-1]\<close> on, the current \<open>block\<close> and the finished \<open>Blocks\<close>.
\<close>

fun break_loop :: "bool \<Rightarrow> ('a::linorder) list \<Rightarrow> 'a list \<Rightarrow> 'a list list \<Rightarrow> 'a list list" where
  "break_loop weak (p # x # xs) block Blocks =
     (if p > x \<or> (p = x \<and> weak) then break_loop weak (x # xs) [x] (Blocks @ [block])
      else break_loop weak (x # xs) (block @ [x]) Blocks)"
| "break_loop weak xs block Blocks = (if block \<noteq> [] then Blocks @ [block] else Blocks)"

definition break_at_descents :: "('a::linorder) list \<Rightarrow> bool \<Rightarrow> 'a list list" where
  "break_at_descents alpha weak =
     (case alpha of [] \<Rightarrow> [] | a # _ \<Rightarrow> break_loop weak alpha [a] [])"

text \<open>
  The family \<open>OrderedMultisetPartitions_X(X)\<close> is given by the items \<open>X\<close> of a dictionary
  from letters to frequencies; \<open>_Xtup\<close> lists every key as often as its frequency says, in
  increasing order of the keys.
\<close>

definition Xtup :: "(('a::linorder) \<times> nat) list \<Rightarrow> 'a list" where
  "Xtup X = concat (map (\<lambda>(k, v). replicate v k) (sort_key fst X))"

text \<open>\<open>OrderedMultisetPartitions_X.cardinality\<close>.\<close>

definition cardinality_X :: "(('a::linorder) \<times> nat) list \<Rightarrow> nat" where
  "cardinality_X X =
     (if Xtup X = [] then 0
      else (\<Sum>alpha\<leftarrow>Permutations_mset (Xtup X).
              (\<Prod>k\<leftarrow>break_at_descents alpha True. 2 ^ (length k - 1))))"

text \<open>\<open>_iterator_weight\<close>, which \<open>OrderedMultisetPartitions_X.__iter__\<close> returns.\<close>

definition iterator_weight ::
  "(('a::linorder) list \<Rightarrow> 'a list) \<Rightarrow> ('a \<times> nat) list \<Rightarrow> error + 'a omp list" where
  "iterator_weight listing weight =
     (let multiset = Xtup weight in
      if multiset = [] then
        (case element_X multiset [] of Inl e \<Rightarrow> Inl e | Inr A \<Rightarrow> Inr [A])
      else
        (case map_result
                (\<lambda>alpha. case element_X multiset (break_at_descents alpha True) of
                            Inl e \<Rightarrow> Inl e
                          | Inr co \<Rightarrow> finer listing co True)
                (Permutations_mset multiset) of
           Inl e \<Rightarrow> Inl e
         | Inr Fs \<Rightarrow> Inr (concat Fs)))"

section \<open>The cardinality of the family of a fixed size\<close>

text \<open>
  Modelled from the spec: the symbolic polynomials in \<open>t\<close> that \<open>cardinality\<close> builds with
  \<open>var\<close>, \<open>prod\<close> and \<open>coefficients\<close> (external collaborators). A polynomial is the list of
  its coefficients, the entry at index \<open>d\<close> for \<open>t ^ d\<close>; \<open>coefficients()\<close> lists the pairs
  \<open>[coefficient, degree]\<close> of the nonzero coefficients by increasing degree.
\<close>

fun poly_add :: "nat list \<Rightarrow> nat list \<Rightarrow> nat list" where
  "poly_add [] q = q"
| "poly_add p [] = p"
| "poly_add (x # p) (y # q) = (x + y) # poly_add p q"

text \<open>The product of \<open>p\<close> and \<open>1 + t ^ k\<close>.\<close>

definition times_one_plus_power :: "nat list \<Rightarrow> nat \<Rightarrow> nat list" where
  "times_one_plus_power p k = poly_add p (replicate k 0 @ p)"

definition coefficients :: "nat list \<Rightarrow> (nat \<times> nat) list" where
  "coefficients p = filter (\<lambda>(c, d). c \<noteq> 0) (zip p [0..<length p])"

text \<open>\<open>prod([1+t**k for k in range(1,n+1)])\<close> and its \<open>coefficients()\<close>.\<close>

definition parts_product :: "nat \<Rightarrow> nat list" where
  "parts_product n = foldl times_one_plus_power [1] [1..<n + 1]"

definition partspoly :: "nat \<Rightarrow> (nat \<times> nat) list" where
  "partspoly n = coefficients (parts_product n)"

text \<open>\<open>partspoly_coeff(d)\<close> is \<open>partspoly[d][0]\<close>.\<close>

definition partspoly_coeff :: "(nat \<times> nat) list \<Rightarrow> nat \<Rightarrow> error + nat" where
  "partspoly_coeff pp d = (if d < length pp then Inr (fst (pp ! d)) else Inl IndexError)"

text \<open>The dictionary \<open>orders\<close> of the small cases.\<close>

definition orders :: "(nat \<times> nat) list" where
  "orders = [(0, 1), (1, 1), (2, 2), (3, 5), (4, 11), (5, 25)]"

text \<open>\<open>OrderedMultisetPartitions_n.cardinality\<close>, for the family of size \<open>n\<close>.\<close>

definition cardinality_n :: "nat \<Rightarrow> error + nat" where
  "cardinality_n n =
     (if n \<le> 5 then (case map_of orders n of None \<Rightarrow> Inl KeyError | Some v \<Rightarrow> Inr v)
      else
        (case map_result
                (\<lambda>alpha. case map_result (partspoly_coeff (partspoly n)) alpha of
                            Inl e \<Rightarrow> Inl e
                          | Inr cs \<Rightarrow> Inr (prod_list cs))
                (Compositions n) of
           Inl e \<Rightarrow> Inl e
         | Inr ps \<Rightarrow> Inr (sum_list ps)))"

text \<open>
  The claim's words: the partitions of \<open>a\<close> into distinct positive parts are the finite
  sets of positive integers with sum \<open>a\<close>; the compositions of \<open>n\<close> are the lists of
  positive integers with sum \<open>n\<close>.
\<close>

definition distinct_partitions :: "nat \<Rightarrow> nat set set" where
  "distinct_partitions a = {S. finite S \<and> 0 \<notin> S \<and> \<Sum>S = a}"

definition compositions_of :: "nat \<Rightarrow> nat list set" where
  "compositions_of n = {alpha. 0 \<notin> set alpha \<and> sum_list alpha = n}"

definition cardinality_formula :: "nat \<Rightarrow> nat" where
  "cardinality_formula n =
     (\<Sum>alpha\<in>compositions_of n. \<Prod>a\<leftarrow>alpha. card (distinct_partitions a))"

text \<open>Auxiliary notions of the proofs: the coefficient of a degree, and the sets of
  distinct positive integers up to \<open>m\<close> with sum \<open>d\<close>.\<close>

definition coeff :: "nat list \<Rightarrow> nat \<Rightarrow> nat" where
  "coeff p d = (if d < length p then p ! d else 0)"

definition bounded_partitions :: "nat \<Rightarrow> nat \<Rightarrow> nat set set" where
  "bounded_partitions m d = {S. S \<subseteq> {1..m} \<and> \<Sum>S = d}"

section \<open>Families and their constraints\<close>

text \<open>
  The keyword arguments \<open>**constraints\<close> of \<open>OrderedMultisetPartitions\<close> are a dictionary.
  It is held in two parts. Each of the nine keywords that the code knows is a field of
  the record \<open>known\<close>, absent (\<open>None\<close>) or present with a value of its documented type:
  \<open>weight\<close> a dictionary (held as its items) or a weak composition, \<open>alphabet\<close> an integer
  or the elements of an iterable, the others integers. The keywords outside the nine are
  a list of items with integer values. \<open>constraints.pop(k, None)\<close> sets a field to \<open>None\<close>.
\<close>

datatype weight_arg = WDict "(int \<times> int) list" | WList "int list"

datatype alphabet_arg = AInt int | ASet "int list"

record known =
  kw_weight :: "weight_arg option"
  kw_size :: "int option"
  kw_alphabet :: "alphabet_arg option"
  kw_length :: "int option"
  kw_min_length :: "int option"
  kw_max_length :: "int option"
  kw_order :: "int option"
  kw_min_order :: "int option"
  kw_max_order :: "int option"

type_synonym constraints = "known \<times> (string \<times> int) list"

definition no_known :: known where
  "no_known =
     \<lparr>kw_weight = None, kw_size = None, kw_alphabet = None, kw_length = None,
      kw_min_length = None, kw_max_length = None, kw_order = None, kw_min_order = None,
      kw_max_order = None\<rparr>"


text \<open>The positional arguments: an integer, a list or a dictionary (its items).\<close>

datatype pos_arg = PInt int | PList "int list" | PDict "(int \<times> int) list"

text \<open>
  The seven classes of families, with the attributes \<open>_n\<close>, \<open>_X\<close>, \<open>_alphabet\<close> and \<open>_order\<close>
  their constructors set.
\<close>

datatype shape =
    All_constraints
  | Fixed_n int
  | Fixed_n_constraints int
  | Fixed_X "(int \<times> int) list"
  | Fixed_X_constraints "(int \<times> int) list"
  | Fixed_A "int list" int
  | Fixed_A_constraints "int list" int

record family =
  shape :: shape
  constraints :: constraints
  full_constraints :: constraints
  finite_category :: bool

text \<open>\<open>range(1, m+1)\<close>.\<close>

definition range1 :: "int \<Rightarrow> int list" where
  "range1 m = [1..m]"

text \<open>\<open>_is_finite\<close>; falling off its end returns \<open>None\<close>, which is false.\<close>

definition is_finite :: "known \<Rightarrow> bool" where
  "is_finite cs =
     (if kw_weight cs \<noteq> None \<or> kw_size cs \<noteq> None then True
      else if kw_alphabet cs \<noteq> None then
        (kw_length cs \<noteq> None \<or> kw_max_length cs \<noteq> None \<or> kw_order cs \<noteq> None
          \<or> kw_max_order cs \<noteq> None)
      else False)"

text \<open>
  \<open>OrderedMultisetPartitions.__init__(self, is_finite=None, **constraints)\<close>, block by
  block. First the values of \<open>alphabet\<close> and \<open>weight\<close> are standardized; a \<open>weight\<close> removes
  the keywords it implies, and \<open>dict\<close> of a weak composition raises \<open>TypeError\<close>.
\<close>

definition standardize_alphabet :: "known \<Rightarrow> known" where
  "standardize_alphabet cs =
     (case kw_alphabet cs of
        None \<Rightarrow> cs
      | Some (AInt m) \<Rightarrow> cs\<lparr>kw_alphabet := Some (ASet (Set_of (range1 m)))\<rparr>
      | Some (ASet A) \<Rightarrow> cs\<lparr>kw_alphabet := Some (ASet (Set_of A))\<rparr>)"

definition standardize_weight :: "known \<Rightarrow> error + known" where
  "standardize_weight cs =
     (case kw_weight cs of
        None \<Rightarrow> Inr cs
      | Some (WList l) \<Rightarrow> Inl TypeError
      | Some (WDict X) \<Rightarrow>
          Inr (cs\<lparr>kw_alphabet := None, kw_min_order := None, kw_order := None,
                 kw_max_order := None, kw_size := None\<rparr>))"

text \<open>
  An explicit \<open>length\<close> removes \<open>min_length\<close> and \<open>max_length\<close>; \<open>min_length <= max_length\<close>
  is asserted, an absent \<open>max_length\<close> being \<open>infinity\<close>; equal bounds become a \<open>length\<close>.
  The same for \<open>order\<close>.
\<close>

definition collapse_length :: "known \<Rightarrow> error + known" where
  "collapse_length cs =
     (let cs' = (if kw_length cs \<noteq> None
                 then cs\<lparr>kw_min_length := None, kw_max_length := None\<rparr> else cs);
          min_k = (case kw_min_length cs' of None \<Rightarrow> 0 | Some i \<Rightarrow> i)
      in case kw_max_length cs' of
           None \<Rightarrow> Inr cs'
         | Some max_k \<Rightarrow>
             if \<not> min_k \<le> max_k then Inl AssertionError
             else if min_k = max_k
               then Inr (cs'\<lparr>kw_length := Some min_k, kw_min_length := None, kw_max_length := None\<rparr>)
             else Inr cs')"

definition collapse_order :: "known \<Rightarrow> error + known" where
  "collapse_order cs =
     (let cs' = (if kw_order cs \<noteq> None
                 then cs\<lparr>kw_min_order := None, kw_max_order := None\<rparr> else cs);
          min_ord = (case kw_min_order cs' of None \<Rightarrow> 0 | Some i \<Rightarrow> i)
      in case kw_max_order cs' of
           None \<Rightarrow> Inr cs'
         | Some max_ord \<Rightarrow>
             if \<not> min_ord \<le> max_ord then Inl AssertionError
             else if min_ord = max_ord
               then Inr (cs'\<lparr>kw_order := Some min_ord, kw_min_order := None, kw_max_order := None\<rparr>)
             else Inr cs')"

text \<open>
  \<open>self.constraints\<close>: the loop over the items keeps a keyword whose value is true, and
  \<open>size\<close>, \<open>order\<close> and \<open>length\<close> always.
\<close>

definition keep_true :: "int option \<Rightarrow> int option" where
  "keep_true v = (case v of None \<Rightarrow> None | Some i \<Rightarrow> if i \<noteq> 0 then Some i else None)"

definition true_items :: "constraints \<Rightarrow> constraints" where
  "true_items cs =
     ((fst cs)\<lparr>kw_weight := (case kw_weight (fst cs) of
                        Some (WDict d) \<Rightarrow> if d \<noteq> [] then Some (WDict d) else None
                      | Some (WList l) \<Rightarrow> if l \<noteq> [] then Some (WList l) else None
                      | None \<Rightarrow> None),
        kw_alphabet := (case kw_alphabet (fst cs) of
                          Some (ASet A) \<Rightarrow> if A \<noteq> [] then Some (ASet A) else None
                        | Some (AInt m) \<Rightarrow> if m \<noteq> 0 then Some (AInt m) else None
                        | None \<Rightarrow> None),
        kw_min_length := keep_true (kw_min_length (fst cs)),
        kw_max_length := keep_true (kw_max_length (fst cs)),
        kw_min_order := keep_true (kw_min_order (fst cs)),
        kw_max_order := keep_true (kw_max_order (fst cs))\<rparr>,
      filter (\<lambda>(key, val). val \<noteq> 0) (snd cs))"

text \<open>\<open>self.full_constraints\<close>: the attributes of the class are added.\<close>

definition with_attributes :: "shape \<Rightarrow> known \<Rightarrow> known" where
  "with_attributes sh cs =
     (case sh of
        All_constraints \<Rightarrow> cs
      | Fixed_n n \<Rightarrow> cs\<lparr>kw_size := Some n\<rparr>
      | Fixed_n_constraints n \<Rightarrow> cs\<lparr>kw_size := Some n\<rparr>
      | Fixed_X X \<Rightarrow> cs\<lparr>kw_weight := Some (WDict X)\<rparr>
      | Fixed_X_constraints X \<Rightarrow> cs\<lparr>kw_weight := Some (WDict X)\<rparr>
      | Fixed_A A d \<Rightarrow> cs\<lparr>kw_alphabet := Some (ASet A), kw_order := Some d\<rparr>
      | Fixed_A_constraints A d \<Rightarrow> cs\<lparr>kw_alphabet := Some (ASet A), kw_order := Some d\<rparr>)"

text \<open>A keyword of the call is named like one of the parameters \<open>names\<close>.\<close>

definition rebinds :: "string set \<Rightarrow> (string \<times> int) list \<Rightarrow> bool" where
  "rebinds names ks = list_ex (\<lambda>(key, val). key \<in> names) ks"

text \<open>
  The whole of \<open>__init__\<close>, for an instance of the class \<open>sh\<close>. A keyword named like the
  parameter \<open>self\<close> or \<open>is_finite\<close> cannot be bound (\<open>TypeError\<close>).
\<close>

definition init :: "bool \<Rightarrow> shape \<Rightarrow> constraints \<Rightarrow> error + family" where
  "init is_finite_arg sh cs0 =
     (if rebinds {''self'', ''is_finite''} (snd cs0) then Inl TypeError
      else
        (case standardize_weight (standardize_alphabet (fst cs0)) of
           Inl e \<Rightarrow> Inl e
         | Inr cs2 \<Rightarrow>
             (case collapse_length cs2 of
                Inl e \<Rightarrow> Inl e
              | Inr cs4 \<Rightarrow>
                  (case collapse_order cs4 of
                     Inl e \<Rightarrow> Inl e
                   | Inr cs6 \<Rightarrow>
                       (let self_constraints = true_items (cs6, snd cs0) in
                        Inr \<lparr>shape = sh, constraints = self_constraints,
                             full_constraints =
                               (with_attributes sh (fst self_constraints), snd self_constraints),
                             finite_category = (is_finite_arg \<or> is_finite cs6)\<rparr>)))))"

text \<open>
  The constructors of the seven classes: each binds its own parameters and hands the
  keywords on to \<open>OrderedMultisetPartitions.__init__\<close>; a keyword named like one of its
  parameters cannot be bound (\<open>TypeError\<close>). Every instance is made through the
  \<open>__classcall__(cls, *args, **options)\<close> of the external \<open>UniqueRepresentation\<close>, which binds
  the class to its parameter \<open>cls\<close>: a keyword named \<open>cls\<close> cannot be bound either.
\<close>

definition parameter_names :: "shape \<Rightarrow> string set" where
  "parameter_names sh =
     (case sh of
        All_constraints \<Rightarrow> {''cls'', ''self''}
      | Fixed_n n \<Rightarrow> {''cls'', ''self'', ''n''}
      | Fixed_n_constraints n \<Rightarrow> {''cls'', ''self'', ''n''}
      | Fixed_X X \<Rightarrow> {''cls'', ''self'', ''X''}
      | Fixed_X_constraints X \<Rightarrow> {''cls'', ''self'', ''X''}
      | Fixed_A A d \<Rightarrow> {''cls'', ''self'', ''A'', ''d''}
      | Fixed_A_constraints A d \<Rightarrow> {''cls'', ''self'', ''A'', ''d''})"

definition class_init :: "shape \<Rightarrow> constraints \<Rightarrow> error + family" where
  "class_init sh cs =
     (if rebinds (parameter_names sh) (snd cs) then Inl TypeError
      else (case sh of
              All_constraints \<Rightarrow> init False sh cs
            | Fixed_n_constraints n \<Rightarrow> init True sh ((fst cs)\<lparr>kw_size := Some n\<rparr>, snd cs)
            | _ \<Rightarrow> init True sh cs))"

text \<open>
  \<open>OrderedMultisetPartitions.__classcall_private__(self, *args, **constraints)\<close>. The
  \<open>weight\<close> keyword becomes the items of a dictionary with positive values, or raises
  \<open>ValueError\<close>; an integer \<open>alphabet\<close> becomes \<open>{1, ..., m}\<close>.
\<close>

definition standard_weight :: "weight_arg \<Rightarrow> error + weight_arg" where
  "standard_weight w =
     (let d = (case w of
                 WDict d \<Rightarrow> d
               | WList l \<Rightarrow> map (\<lambda>i. (int i + 1, l ! i)) (filter (\<lambda>i. l ! i > 0) [0..<length l]))
      in if \<not> list_all (\<lambda>(k, a). a > 0) d then Inl ValueError else Inr (WDict d))"

definition standard_alphabet :: "alphabet_arg \<Rightarrow> alphabet_arg" where
  "standard_alphabet A = (case A of AInt m \<Rightarrow> ASet (Set_of (range1 m)) | ASet A \<Rightarrow> ASet (Set_of A))"

definition standard_keywords :: "known \<Rightarrow> error + known" where
  "standard_keywords cs =
     (case (case kw_weight cs of
              None \<Rightarrow> Inr cs
            | Some w \<Rightarrow> (case standard_weight w of
                           Inl e \<Rightarrow> Inl e
                         | Inr w' \<Rightarrow> Inr (cs\<lparr>kw_weight := Some w'\<rparr>))) of
        Inl e \<Rightarrow> Inl e
      | Inr cs1 \<Rightarrow> Inr (cs1\<lparr>kw_alphabet := map_option standard_alphabet (kw_alphabet cs1)\<rparr>))"

text \<open>The list of a positional alphabet, and the dictionary that counts a list.\<close>

definition alph_list :: "pos_arg \<Rightarrow> int list" where
  "alph_list a = (case a of PInt m \<Rightarrow> range1 m | PList l \<Rightarrow> l | PDict d \<Rightarrow> map fst d)"

definition counts :: "int list \<Rightarrow> (int \<times> int) list" where
  "counts X = map (\<lambda>(k, v). (k, int v)) (get_weight X)"

text \<open>The branch for one argument that is a list or a dictionary.\<close>

definition multiset_family :: "(int \<times> int) list \<Rightarrow> constraints \<Rightarrow> error + family" where
  "multiset_family X cs =
     (let cs' = ((fst cs)\<lparr>kw_size := None, kw_weight := None, kw_alphabet := None,
                           kw_order := None\<rparr>, snd cs)
      in if cs' = (no_known, []) then class_init (Fixed_X X) (no_known, [])
         else class_init (Fixed_X_constraints X) cs')"

definition classcall_private :: "pos_arg list \<Rightarrow> constraints \<Rightarrow> error + family" where
  "classcall_private args constraints0 =
     (if rebinds {''self''} (snd constraints0) then Inl TypeError
      else
        (case standard_keywords (fst constraints0) of
           Inl e \<Rightarrow> Inl e
         | Inr kn \<Rightarrow>
        (let cs = (kn, snd constraints0)
         in case args of
              [alph0, ord0] \<Rightarrow>
                (let alph = alph_list alph0 in
                 case ord0 of
                   PInt ord \<Rightarrow>
                     if (alph \<noteq> [] \<and> length (Set_of alph) = length alph) \<and> ord \<ge> 0 then
                       (let cs' = (kn\<lparr>kw_alphabet := None, kw_order := None\<rparr>, snd cs) in
                        if cs' = (no_known, [])
                        then class_init (Fixed_A (Set_of alph) ord) (no_known, [])
                        else class_init (Fixed_A_constraints (Set_of alph) ord) cs')
                     else if Set_of alph = [] \<and> ord = 0 then
                       class_init (Fixed_A_constraints (Set_of alph) ord) cs
                     else Inl ValueError
                 | _ \<Rightarrow> Inl ValueError)
            | [X0] \<Rightarrow>
                (case X0 of
                   PInt X \<Rightarrow>
                     if X \<ge> 0 then
                       (let cs' = (kn\<lparr>kw_size := None\<rparr>, snd cs) in
                        if cs' = (no_known, []) then class_init (Fixed_n X) (no_known, [])
                        else class_init (Fixed_n_constraints X) cs')
                     else Inl ValueError
                 | PList l \<Rightarrow> multiset_family (counts l) cs
                 | PDict d \<Rightarrow> multiset_family d cs)
            | _ \<Rightarrow> class_init All_constraints cs)))"

text \<open>
  \<open>_satisfies_constraints\<close>. \<open>pass_test\<close> is asked for every item of \<open>full_constraints\<close>
  whose value is true; for a keyword outside the nine it falls off its end and returns
  \<open>None\<close>, which \<open>all\<close> counts as false.
\<close>

definition letters :: "int omp \<Rightarrow> int list" where
  "letters co = Set_of (concat co)"

definition pass_tests :: "known \<Rightarrow> int omp \<Rightarrow> bool" where
  "pass_tests full co =
     ((case kw_size full of
         Some tst \<Rightarrow> tst = 0 \<or> size_omp co = Some tst | None \<Rightarrow> True)
    \<and> (case kw_length full of
         Some tst \<Rightarrow> tst = 0 \<or> int (length co) = tst | None \<Rightarrow> True)
    \<and> (case kw_min_length full of
         Some tst \<Rightarrow> tst = 0 \<or> int (length co) \<ge> tst | None \<Rightarrow> True)
    \<and> (case kw_max_length full of
         Some tst \<Rightarrow> tst = 0 \<or> int (length co) \<le> tst | None \<Rightarrow> True)
    \<and> (case kw_weight full of
         Some (WDict tst) \<Rightarrow> tst = [] \<or> counts (get_multiset co) = sort_key fst tst
       | Some (WList tst) \<Rightarrow> tst = []
       | None \<Rightarrow> True)
    \<and> (case kw_alphabet full of
         Some (AInt tst) \<Rightarrow> tst = 0 \<or> set (letters co) \<subseteq> set (range1 tst)
       | Some (ASet tst) \<Rightarrow> tst = [] \<or> set (letters co) \<subseteq> set tst
       | None \<Rightarrow> True)
    \<and> (case kw_order full of
         Some tst \<Rightarrow> tst = 0 \<or> int (order_omp co) = tst | None \<Rightarrow> True)
    \<and> (case kw_min_order full of
         Some tst \<Rightarrow> tst = 0 \<or> int (order_omp co) \<ge> tst | None \<Rightarrow> True)
    \<and> (case kw_max_order full of
         Some tst \<Rightarrow> tst = 0 \<or> int (order_omp co) \<le> tst | None \<Rightarrow> True))"

definition satisfies_constraints :: "family \<Rightarrow> int list list \<Rightarrow> error + bool" where
  "satisfies_constraints self x =
     (case element_X (get_multiset x) x of
        Inl e \<Rightarrow> Inl e
      | Inr co \<Rightarrow>
          Inr (pass_tests (fst (full_constraints self)) co
                 \<and> list_all (\<lambda>(key, val). val = 0) (snd (full_constraints self))))"

section \<open>The tableau of a partition and its inverse\<close>

text \<open>\<open>xs[j]\<close> for \<open>0 \<le> j\<close>.\<close>

definition item :: "'a list \<Rightarrow> nat \<Rightarrow> error + 'a" where
  "item xs j = (if j < length xs then Inr (xs ! j) else Inl IndexError)"

text \<open>
  \<open>OrderedMultisetPartition.to_tableau\<close>. The loop puts each new row in front, so the
  rows come out in the reverse of the order of \<open>i\<close>, followed by \<open>b\<close>.
\<close>

definition to_tableau :: "('a::linorder) omp \<Rightarrow> error + 'a list list" where
  "to_tableau c =
     (if c = [] then Inr []
      else
        (case minimaj_blocks c of
           Inl e \<Rightarrow> Inl e
         | Inr bb \<Rightarrow>
             (case map_result (\<lambda>block. item block 0) bb of
                Inl e \<Rightarrow> Inl e
              | Inr b \<Rightarrow>
                  (let beginning = partial_sum (map length c);
                       w = concatenate bb;
                       D = [0] @ descents w @ [length w]
                   in case map_result
                             (\<lambda>i. map_result (item w)
                                    (filter (\<lambda>j. j \<notin> set beginning) [D ! i + 1..<D ! (i + 1) + 1]))
                             [0..<length D - 1] of
                        Inl e \<Rightarrow> Inl e
                      | Inr ps \<Rightarrow> Inr (rev (map rev ps) @ [b])))))"

text \<open>
  \<open>_to_minimaj_blocks\<close>. One turn of the inner loop, for the row \<open>T[f]\<close>, the bounds
  \<open>lo = breaks[f]\<close> and \<open>hi = breaks[f+1]\<close>, and the position \<open>j\<close>.
\<close>

definition extend_block :: "('a::linorder) list \<Rightarrow> nat \<Rightarrow> nat \<Rightarrow> 'a list list \<Rightarrow> nat \<Rightarrow> 'a list list" where
  "extend_block row lo hi mu j =
     mu[j := mu ! j
          @ filter (\<lambda>i. (hd (mu ! j) < i \<or> j = lo) \<and> (j = hi \<or> i \<le> hd (mu ! (j + 1)))) row]"

text \<open>
  The outer loop runs over \<open>f\<close> in \<open>range(len(breaks)-1)\<close>; \<open>T[f]\<close> raises \<open>IndexError\<close> when
  the tableau has too few rows. When the last row of the tableau is empty, \<open>breaks\<close> is
  \<open>[0, -1]\<close> and both loops do nothing.
\<close>

definition to_minimaj_blocks :: "('a::linorder) list list \<Rightarrow> error + 'a list list" where
  "to_minimaj_blocks T =
     (if T = [] then Inl IndexError
      else
        (let mu = map (\<lambda>i. [i]) (last T) in
         if mu = [] then Inr []
         else
           (let breaks = [0] @ descents (last T) @ [length mu - 1];
                T' = rev (map rev (butlast T))
            in if length T' < length breaks - 1 then Inl IndexError
               else Inr (foldl (\<lambda>mu f. foldl (extend_block (T' ! f) (breaks ! f) (breaks ! (f + 1)))
                                         mu [breaks ! f..<breaks ! (f + 1) + 1])
                           mu [0..<length breaks - 1]))))"

section \<open>Enumeration over an alphabet\<close>

text \<open>
  Modelled from the spec: the composition enumerator with a fixed number of parts and a
  bound on the parts, \<open>Compositions(d, length=k, max_part=n)\<close>, and the subset enumerator
  \<open>Subsets_sk(A, a)\<close> of the subsets of \<open>A\<close> with \<open>a\<close> elements (external collaborators).
\<close>

definition Compositions_length_max :: "nat \<Rightarrow> nat \<Rightarrow> nat \<Rightarrow> nat list list" where
  "Compositions_length_max d k n =
     filter (\<lambda>alpha. length alpha = k \<and> list_all (\<lambda>a. a \<le> n) alpha) (Compositions d)"

definition Subsets_sk :: "'a list \<Rightarrow> nat \<Rightarrow> 'a list list" where
  "Subsets_sk A a = filter (\<lambda>s. length s = a) (subseqs A)"

text \<open>
  \<open>OrderedMultisetPartitions_A._has_valid_blocks\<close> and \<open>P(co)\<close> for
  \<open>P = OrderedMultisetPartitions_A(A, d)\<close>.
\<close>

definition has_valid_blocks_A :: "int list \<Rightarrow> nat \<Rightarrow> int list list \<Rightarrow> bool" where
  "has_valid_blocks_A A d x =
     (has_valid_blocks x \<and> sum_list (map length x) = d \<and> set (concatenate x) \<subseteq> set A)"

definition element_A :: "int list \<Rightarrow> nat \<Rightarrow> int list list \<Rightarrow> error + int omp" where
  "element_A A d lst =
     (if has_valid_blocks_A A d lst
      then Inr (map Set_of (filter (\<lambda>block. block \<noteq> []) lst))
      else Inl AssertionError)"

text \<open>
  \<open>_iterator_order(A, d, lengths)\<close>; an absent or empty \<open>lengths\<close> is replaced, and
  \<open>d // n\<close> raises \<open>ZeroDivisionError\<close> for an empty alphabet.
\<close>

definition iterator_order :: "int list \<Rightarrow> nat \<Rightarrow> nat list \<Rightarrow> error + int omp list" where
  "iterator_order A0 d lengths0 =
     (let A = Set_of A0; n = length A in
      case (if lengths0 = [] then
              (if d \<noteq> 0 then
                 (if n = 0 then Inl ZeroDivisionError else Inr [max 1 (d div n)..<d + 1])
               else Inr [0])
            else Inr lengths0) of
        Inl e \<Rightarrow> Inl e
      | Inr lengths \<Rightarrow>
          (case map_result
                  (\<lambda>k. if k = 0 \<and> d = 0 then map_result (element_A A d) [[]]
                       else map_result (element_A A d)
                              (concat (map (\<lambda>alpha. cartesian_product (map (Subsets_sk A) alpha))
                                         (Compositions_length_max d k n))))
                  lengths of
             Inl e \<Rightarrow> Inl e
           | Inr yielded \<Rightarrow> Inr (concat yielded)))"

text \<open>
  The branch of \<open>_base_iterator\<close> for constraints with an \<open>alphabet\<close> and neither \<open>weight\<close>
  nor \<open>size\<close>. \<open>None\<close> is \<open>infinity\<close> for the upper bounds, and the result \<open>None\<close> of the
  function when a bound stays infinite. Lengths and orders count blocks and letters and
  are not negative.
\<close>

definition min_inf :: "int option \<Rightarrow> int option \<Rightarrow> int option" where
  "min_inf a b = (case a of None \<Rightarrow> b | Some x \<Rightarrow> (case b of None \<Rightarrow> Some x | Some y \<Rightarrow> Some (min x y)))"

definition base_iterator_alphabet :: "known \<Rightarrow> error + int omp list option" where
  "base_iterator_alphabet cs =
     (case kw_alphabet cs of
        Some (ASet A) \<Rightarrow>
          (let min_k0 = (case kw_min_length cs of None \<Rightarrow> 0 | Some i \<Rightarrow> i);
               min_ord0 = (case kw_min_order cs of None \<Rightarrow> 0 | Some i \<Rightarrow> i);
               max_ord0 = kw_max_order cs;
               max_k0 = min_inf (kw_max_length cs) max_ord0;
               (min_k1, max_k1, min_ord1, max_ord1) =
                 (case kw_length cs of
                    None \<Rightarrow> (min_k0, max_k0, min_ord0, max_ord0)
                  | Some l \<Rightarrow> (l, Some l, max min_ord0 l, min_inf max_ord0 (Some (int (length A) * l))))
           in case (case kw_order cs of
                      None \<Rightarrow> Inr (min_k1, max_k1, min_ord1, max_ord1)
                    | Some ord \<Rightarrow>
                        if ord \<noteq> 0 then
                          (if length A = 0 then Inl ZeroDivisionError
                           else Inr (max 1 (max min_k1 (ord div int (length A))),
                                     min_inf max_k1 (Some ord), ord, Some ord))
                        else Inr (min_k1, min_inf max_k1 (Some ord), ord, Some ord)) of
                Inl e \<Rightarrow> Inl e
              | Inr (min_k, max_k, min_ord, max_ord) \<Rightarrow>
                  (case (max_k, max_ord) of
                     (Some mk, Some mo) \<Rightarrow>
                       (case map_result (\<lambda>ord. iterator_order A (nat ord) (map nat [min_k..mk]))
                               [min_ord..mo] of
                          Inl e \<Rightarrow> Inl e
                        | Inr chained \<Rightarrow> Inr (Some (concat chained)))
                   | _ \<Rightarrow> Inr None))
      | _ \<Rightarrow> Inr None)"

text \<open>
  \<open>OrderedMultisetPartitions.__iter__\<close> for such a family with a base iterator: the
  partitions of the base iterator that satisfy the constraints. The families of a fixed
  alphabet and order with constraints inherit it.
\<close>

fun filter_result :: "('a \<Rightarrow> error + bool) \<Rightarrow> 'a list \<Rightarrow> error + 'a list" where
  "filter_result p [] = Inr []"
| "filter_result p (x # xs) =
     (case p x of
        Inl e \<Rightarrow> Inl e
      | Inr ok \<Rightarrow>
          (case filter_result p xs of
             Inl e \<Rightarrow> Inl e
           | Inr ys \<Rightarrow> Inr (if ok then x # ys else ys)))"

definition iter_alphabet :: "family \<Rightarrow> error + int omp list option" where
  "iter_alphabet self =
     (case base_iterator_alphabet (fst (full_constraints self)) of
        Inl e \<Rightarrow> Inl e
      | Inr None \<Rightarrow> Inr None
      | Inr (Some iterator) \<Rightarrow>
          (case filter_result (satisfies_constraints self) iterator of
             Inl e \<Rightarrow> Inl e
           | Inr cos \<Rightarrow> Inr (Some cos)))"

section \<open>The minimaj crystal\<close>

text \<open>
  An element of the crystal is the pair \<open>(w, breaks)\<close> of a word and the partial sums of
  the lengths of the rows of a tableau. \<open>MinimajCrystal.__init__\<close> makes one module
  generator of every partition of \<open>OrderedMultisetPartitions(n, ell, length=k)\<close>; the
  result is \<open>None\<close> when that family has no base iterator.

  Before it makes \<open>self._OMPs\<close>, the constructor makes \<open>T = tensor([B]*ell)\<close> with the external
  functor \<open>tensor\<close>, which refuses an empty list of factors (\<open>assert(len(args) > 0)\<close>): for
  \<open>ell \<le> 0\<close> the constructor raises \<open>AssertionError\<close> and there is no crystal.
\<close>

type_synonym crystal_element = "int list \<times> nat list"

definition to_element :: "int omp \<Rightarrow> error + crystal_element" where
  "to_element co =
     (case to_tableau co of
        Inl e \<Rightarrow> Inl e
      | Inr t \<Rightarrow> Inr (concatenate t, partial_sum (map length t)))"

definition crystal_OMPs :: "int \<Rightarrow> int \<Rightarrow> int \<Rightarrow> error + family" where
  "crystal_OMPs n ell k =
     (if ell \<le> 0 then Inl AssertionError
      else classcall_private [PInt n, PInt ell] (no_known\<lparr>kw_length := Some k\<rparr>, []))"

definition module_generators :: "int \<Rightarrow> int \<Rightarrow> int \<Rightarrow> error + crystal_element list option" where
  "module_generators n ell k =
     (case crystal_OMPs n ell k of
        Inl e \<Rightarrow> Inl e
      | Inr OMPs \<Rightarrow>
          (case iter_alphabet OMPs of
             Inl e \<Rightarrow> Inl e
           | Inr None \<Rightarrow> Inr None
           | Inr (Some cos) \<Rightarrow>
               (case map_result to_element cos of
                  Inl e \<Rightarrow> Inl e
                | Inr gens \<Rightarrow> Inr (Some gens))))"

text \<open>\<open>Element.to_tableau\<close>: the rows \<open>w[breaks[j]:breaks[j+1]]\<close>.\<close>

definition element_to_tableau :: "crystal_element \<Rightarrow> int list list" where
  "element_to_tableau b =
     map (\<lambda>j. slice (fst b) (snd b ! j) (snd b ! (j + 1))) [0..<length (snd b) - 1]"

text \<open>
  Modelled from the spec: the operators \<open>e(i)\<close> and \<open>f(i)\<close> of a tensor product of letter
  crystals of type A (an external collaborator), on the word of the letters. Reading
  from the left, a letter \<open>i\<close> is matched with the nearest unmatched \<open>i + 1\<close> before it;
  \<open>f(i)\<close> turns the last unmatched \<open>i\<close> into \<open>i + 1\<close>, \<open>e(i)\<close> turns the first unmatched
  \<open>i + 1\<close> into \<open>i\<close>, and each is absent when there is no such letter. The scan keeps the
  positions of the unmatched letters \<open>i + 1\<close> (latest first) and \<open>i\<close> (latest first).
\<close>

fun unmatched :: "int \<Rightarrow> int list \<Rightarrow> nat \<Rightarrow> nat list \<Rightarrow> nat list \<Rightarrow> nat list \<times> nat list" where
  "unmatched i [] pos ups lows = (ups, lows)"
| "unmatched i (a # w) pos ups lows =
     (if a = i + 1 then unmatched i w (pos + 1) (pos # ups) lows
      else if a = i then
        (case ups of
           [] \<Rightarrow> unmatched i w (pos + 1) ups (pos # lows)
         | u # ups' \<Rightarrow> unmatched i w (pos + 1) ups' lows)
      else unmatched i w (pos + 1) ups lows)"

definition tensor_f :: "int \<Rightarrow> int list \<Rightarrow> int list option" where
  "tensor_f i w =
     (case snd (unmatched i w 0 [] []) of [] \<Rightarrow> None | p # _ \<Rightarrow> Some (w[p := i + 1]))"

definition tensor_e :: "int \<Rightarrow> int list \<Rightarrow> int list option" where
  "tensor_e i w =
     (case fst (unmatched i w 0 [] []) of [] \<Rightarrow> None | ups \<Rightarrow> Some (w[last ups := i]))"

text \<open>\<open>Element.e\<close> and \<open>Element.f\<close>: the word changes and the breaks stay.\<close>

definition crystal_e :: "int \<Rightarrow> crystal_element \<Rightarrow> crystal_element option" where
  "crystal_e i b = (case tensor_e i (fst b) of None \<Rightarrow> None | Some w \<Rightarrow> Some (w, snd b))"

definition crystal_f :: "int \<Rightarrow> crystal_element \<Rightarrow> crystal_element option" where
  "crystal_f i b = (case tensor_f i (fst b) of None \<Rightarrow> None | Some w \<Rightarrow> Some (w, snd b))"

text \<open>
  Modelled from the spec: the crystal is the closure of the module generators under the
  operators \<open>e(i)\<close> and \<open>f(i)\<close> for \<open>i\<close> in \<open>1..n-1\<close> (the enumeration of a classical
  crystal is an external collaborator).
\<close>

inductive_set crystal :: "int \<Rightarrow> int \<Rightarrow> int \<Rightarrow> crystal_element set"
  for n :: int and ell :: int and k :: int where
  generator: "module_generators n ell k = Inr (Some gens) \<Longrightarrow> b \<in> set gens \<Longrightarrow> b \<in> crystal n ell k"
| lowered: "b \<in> crystal n ell k \<Longrightarrow> 1 \<le> i \<Longrightarrow> i \<le> n - 1 \<Longrightarrow> crystal_f i b = Some b' \<Longrightarrow> b' \<in> crystal n ell k"
| raised: "b \<in> crystal n ell k \<Longrightarrow> 1 \<le> i \<Longrightarrow> i \<le> n - 1 \<Longrightarrow> crystal_e i b = Some b' \<Longrightarrow> b' \<in> crystal n ell k"

definition OMPs_342 :: family where
  "OMPs_342 =
     \<lparr>shape = Fixed_A_constraints [1, 2, 3] 4,
      constraints = (no_known\<lparr>kw_length := Some 2\<rparr>, []),
      full_constraints =
        (no_known\<lparr>kw_alphabet := Some (ASet [1, 2, 3]), kw_length := Some 2, kw_order := Some 4\<rparr>, []),
      finite_category = True\<rparr>"

definition family_342 :: "int omp list" where
  "family_342 =
     [[[1], [1, 2, 3]], [[2], [1, 2, 3]], [[3], [1, 2, 3]], [[1, 2], [1, 2]], [[1, 2], [1, 3]],
      [[1, 2], [2, 3]], [[1, 3], [1, 2]], [[1, 3], [1, 3]], [[1, 3], [2, 3]], [[2, 3], [1, 2]],
      [[2, 3], [1, 3]], [[2, 3], [2, 3]], [[1, 2, 3], [1]], [[1, 2, 3], [2]], [[1, 2, 3], [3]]]"

definition crystal_342 :: "crystal_element list" where
  "crystal_342 =
     [([3, 2, 1, 1], [0, 2, 4]), ([3, 2, 2, 1], [0, 2, 2, 4]), ([3, 2, 3, 1], [0, 2, 2, 4]),
      ([2, 1, 2, 1], [0, 2, 2, 4]), ([3, 1, 2, 1], [0, 2, 2, 4]), ([3, 2, 1, 2], [0, 2, 4]),
      ([2, 1, 3, 1], [0, 2, 2, 4]), ([3, 1, 3, 1], [0, 2, 2, 4]), ([3, 1, 3, 2], [0, 2, 2, 4]),
      ([2, 3, 2, 1], [0, 1, 2, 4]), ([3, 3, 2, 1], [0, 1, 2, 4]), ([3, 2, 3, 2], [0, 2, 2, 4]),
      ([1, 3, 2, 1], [0, 1, 2, 4]), ([2, 1, 3, 2], [0, 2, 2, 4]), ([3, 2, 1, 3], [0, 2, 4])]"

section \<open>Auxiliary notions for the tableau and its inverse\<close>

text \<open>
  The minimaj ordering of the blocks of a valid partition, from the left: a block \<open>B\<close>
  before the word \<open>W'\<close> becomes its letters above \<open>W'[0]\<close> followed by its other letters.
\<close>

fun minimaj_blocks_rec :: "('a::linorder) list list \<Rightarrow> 'a list list" where
  "minimaj_blocks_rec [] = []"
| "minimaj_blocks_rec [B] = [B]"
| "minimaj_blocks_rec (B # B' # rest) =
     (let C = minimaj_blocks_rec (B' # rest); x = hd (hd C)
      in (filter (\<lambda>j. x < j) B @ filter (\<lambda>j. j \<le> x) B) # C)"

text \<open>
  The shape of a list of words in the minimaj ordering: every word but the last is its
  letters above the first letter of the next word, increasing, followed by its other
  letters, increasing; the last word is increasing.
\<close>

fun minimaj_ordered :: "('a::linorder) list list \<Rightarrow> bool" where
  "minimaj_ordered [] = False"
| "minimaj_ordered [W] = (W \<noteq> [] \<and> sorted W \<and> distinct W)"
| "minimaj_ordered (W # W' # rest) =
     (W \<noteq> [] \<and> distinct W
      \<and> W = filter (\<lambda>a. hd W' < a) W @ filter (\<lambda>a. a \<le> hd W') W
      \<and> sorted (filter (\<lambda>a. hd W' < a) W) \<and> sorted (filter (\<lambda>a. a \<le> hd W') W)
      \<and> minimaj_ordered (W' # rest))"

text \<open>
  The rows of the tableau, read off a word whose letters are marked to be kept or not:
  a row ends after a letter that is greater than the next one.
\<close>

fun rows_of_marked :: "(('a::linorder) \<times> bool) list \<Rightarrow> 'a list list" where
  "rows_of_marked [] = [[]]"
| "rows_of_marked ((a, keep) # xs) =
     (let r = rows_of_marked xs; a' = (if keep then [a] else [])
      in if xs \<noteq> [] \<and> fst (hd xs) < a then a' # r else (a' @ hd r) # tl r)"

text \<open>The rows cut out of the positions from \<open>t\<close> on by the descents \<open>ds\<close>.\<close>

fun rows_from :: "'a list \<Rightarrow> (nat \<Rightarrow> bool) \<Rightarrow> nat \<Rightarrow> nat list \<Rightarrow> 'a list list" where
  "rows_from w keep t [] = [map ((!) w) (filter keep [t..<length w + 1])]"
| "rows_from w keep t (d # ds) =
     map ((!) w) (filter keep [t..<d + 1]) # rows_from w keep (d + 1) ds"

text \<open>
  The letters of a list of words with their marks: the first letter of every word is
  not kept. The rows of the tableau of a list of words in the minimaj ordering.
\<close>

definition marked :: "'a list \<Rightarrow> ('a \<times> bool) list" where
  "marked W = (hd W, False) # map (\<lambda>a. (a, True)) (tl W)"

fun tableau_rows :: "('a::linorder) list list \<Rightarrow> 'a list list" where
  "tableau_rows [] = [[]]"
| "tableau_rows [W] = [tl W]"
| "tableau_rows (W # W' # rest) =
     (let ps = tableau_rows (W' # rest); x = hd W'
      in if x < hd W then tl (filter (\<lambda>a. x < a) W) # (filter (\<lambda>a. a \<le> x) W @ hd ps) # tl ps
         else (tl W @ hd ps) # tl ps)"

text \<open>The kept letters of a marked word.\<close>

definition kept :: "('a \<times> bool) list \<Rightarrow> 'a list" where
  "kept xs = map fst (filter snd xs)"

text \<open>
  The test of \<open>_to_minimaj_blocks\<close> for the letter \<open>i\<close> of a row, the position \<open>t\<close> and the
  bounds \<open>lo\<close> and \<open>hi\<close>, on the first letters \<open>b\<close> of the blocks; and the letters that the
  position \<open>t\<close> takes from a list of rows with their bounds.
\<close>

definition admits :: "('a::linorder) list \<Rightarrow> nat \<Rightarrow> nat \<Rightarrow> nat \<Rightarrow> 'a \<Rightarrow> bool" where
  "admits b lo hi t i = ((b ! t < i \<or> t = lo) \<and> (t = hi \<or> i \<le> b ! (t + 1)))"

definition picked :: "('a::linorder) list \<Rightarrow> nat \<Rightarrow> ((nat \<times> nat) \<times> 'a list) list \<Rightarrow> 'a list" where
  "picked b t Z =
     concat (map (\<lambda>((lo, hi), row). if lo \<le> t \<and> t \<le> hi then filter (admits b lo hi t) row else []) Z)"

text \<open>
  The bounds \<open>(breaks[f], breaks[f+1])\<close> of \<open>_to_minimaj_blocks\<close>, read off the first letters
  from the position \<open>j\<close> on, \<open>lo\<close> being the last break before \<open>j\<close>.
\<close>

fun runs_from :: "('a::linorder) list \<Rightarrow> nat \<Rightarrow> nat \<Rightarrow> (nat \<times> nat) list" where
  "runs_from [] lo j = []"
| "runs_from [x] lo j = [(lo, j)]"
| "runs_from (x # y # bs) lo j =
     (if y < x then (lo, j) # runs_from (y # bs) j (j + 1) else runs_from (y # bs) lo (j + 1))"

text \<open>
  The blocks that \<open>_to_minimaj_blocks\<close> makes of the first letters and the rows \<open>p # ps\<close>,
  block by block; \<open>e\<close> tells that the block is the first of its row.
\<close>

fun blocks_of_rows :: "bool \<Rightarrow> ('a::linorder) list \<Rightarrow> 'a list \<Rightarrow> 'a list list \<Rightarrow> 'a list list" where
  "blocks_of_rows e [] p ps = []"
| "blocks_of_rows e [x] p ps = [[x] @ filter (\<lambda>i. x < i \<or> e) p]"
| "blocks_of_rows e (x # y # bs) p ps =
     (if y < x
      then ([x] @ filter (\<lambda>i. x < i \<or> e) p @ filter (\<lambda>i. i \<le> y) (hd ps))
             # blocks_of_rows False (y # bs) (hd ps) (tl ps)
      else ([x] @ filter (\<lambda>i. (x < i \<or> e) \<and> i \<le> y) p) # blocks_of_rows False (y # bs) p ps)"

section \<open>Membership in a family and the inverse of the tableau\<close>

text \<open>\<open>OrderedMultisetPartitions_n._has_valid_blocks\<close>.\<close>

definition has_valid_blocks_n :: "int \<Rightarrow> int list list \<Rightarrow> bool" where
  "has_valid_blocks_n n x =
     (has_valid_blocks x \<and> list_all (\<lambda>block. list_all (\<lambda>i. i > 0) block) x
      \<and> sum_list (map sum_list x) = n)"

text \<open>
  \<open>OrderedMultisetPartitions.__contains__\<close> for a list of lists: the \<open>_has_valid_blocks\<close> of
  the class of the family. The classes with constraints ask \<open>_satisfies_constraints\<close>
  only when the blocks are valid for the class without constraints.
\<close>

definition contains :: "family \<Rightarrow> int list list \<Rightarrow> error + bool" where
  "contains self x =
     (case shape self of
        All_constraints \<Rightarrow> Inr (has_valid_blocks x)
      | Fixed_n n \<Rightarrow> Inr (has_valid_blocks_n n x)
      | Fixed_n_constraints n \<Rightarrow>
          if has_valid_blocks_n n x then satisfies_constraints self x else Inr False
      | Fixed_X X \<Rightarrow> Inr (has_valid_blocks_X (Xtup (map (\<lambda>(k, v). (k, nat v)) X)) x)
      | Fixed_X_constraints X \<Rightarrow>
          if has_valid_blocks_X (Xtup (map (\<lambda>(k, v). (k, nat v)) X)) x
          then satisfies_constraints self x else Inr False
      | Fixed_A A d \<Rightarrow> Inr (0 \<le> d \<and> has_valid_blocks_A A (nat d) x)
      | Fixed_A_constraints A d \<Rightarrow>
          if 0 \<le> d \<and> has_valid_blocks_A A (nat d) x
          then satisfies_constraints self x else Inr False)"

text \<open>
  \<open>OrderedMultisetPartitions._element_constructor_\<close> for a list of lists, and
  \<open>MinimajCrystal._element_constructor_\<close> for the crystal of the family \<open>OMPs\<close>.
\<close>

definition element_constructor :: "family \<Rightarrow> int list list \<Rightarrow> error + int omp" where
  "element_constructor self lst =
     (case contains self lst of
        Inl e \<Rightarrow> Inl e
      | Inr ok \<Rightarrow>
          if ok then Inr (map Set_of (filter (\<lambda>block. block \<noteq> []) lst))
          else Inl AssertionError)"

definition crystal_element_constructor :: "family \<Rightarrow> int list list \<Rightarrow> error + crystal_element" where
  "crystal_element_constructor OMPs x =
     (case element_constructor OMPs x of Inl e \<Rightarrow> Inl e | Inr co \<Rightarrow> to_element co)"

text \<open>
  \<open>MinimajCrystal.from_tableau\<close> for the crystal of the parameters \<open>n\<close>, \<open>ell\<close> and \<open>k\<close>,
  whose \<open>_OMPs\<close> was made by its constructor.
\<close>

definition from_tableau :: "int \<Rightarrow> int \<Rightarrow> int \<Rightarrow> int list list \<Rightarrow> error + crystal_element" where
  "from_tableau n ell k t =
     (case crystal_OMPs n ell k of
        Inl e \<Rightarrow> Inl e
      | Inr OMPs \<Rightarrow>
          (case to_minimaj_blocks t of
             Inl e \<Rightarrow> Inl e
           | Inr mu \<Rightarrow>
               (case contains OMPs mu of
                  Inl e \<Rightarrow> Inl e
                | Inr ok \<Rightarrow>
                    if ok then crystal_element_constructor OMPs mu
                    else Inl AssertionError)))"

section \<open>The minimaj word rearranges the multiset\<close>

lemma minimaj_step_valid:
  assumes "B \<noteq> []" "C \<noteq> []" "hd C \<noteq> []"
  shows "\<exists>W. minimaj_step B C = Inr (W # C) \<and> mset W = mset B \<and> W \<noteq> []"
proof -
  from assms obtain x xs Cs where C: "C = (x # xs) # Cs"
    by (cases C; cases "hd C") auto
  let ?W = "sort (filter (\<lambda>j. \<not> j \<le> x) B) @ sort (filter (\<lambda>j. j \<le> x) B)"
  have "minimaj_step B C = Inr (?W # C)"
    using assms(1) by (simp add: minimaj_step_def C)
  moreover have m: "mset ?W = mset B"
    by (simp add: union_commute)
  moreover have "?W \<noteq> []"
    using m assms(1) by (metis mset_zero_iff)
  ultimately show ?thesis by blast
qed

lemma minimaj_loop_valid:
  assumes "list_all (\<lambda>b. b \<noteq> []) Bs" "C \<noteq> []" "hd C \<noteq> []"
  shows "\<exists>R. minimaj_loop Bs C = Inr R \<and> R \<noteq> [] \<and> hd R \<noteq> []
           \<and> mset (concat R) = mset (concat Bs) + mset (concat C)
           \<and> length R = length Bs + length C"
  using assms
proof (induction Bs arbitrary: C)
  case Nil
  then show ?case by simp
next
  case (Cons B Bs)
  from Cons.prems have B: "B \<noteq> []" and Bs: "list_all (\<lambda>b. b \<noteq> []) Bs" by simp_all
  from minimaj_step_valid[OF B Cons.prems(2,3)] obtain W where
    W: "minimaj_step B C = Inr (W # C)" "mset W = mset B" "W \<noteq> []" by blast
  from Cons.IH[OF Bs, of "W # C"] W(3) obtain R where
    R: "minimaj_loop Bs (W # C) = Inr R" "R \<noteq> []" "hd R \<noteq> []"
       "mset (concat R) = mset (concat Bs) + mset (concat (W # C))"
       "length R = length Bs + length (W # C)" by auto
  show ?case
    using R W by (simp add: union_ac)
qed

lemma mset_concat_rev_eq: "mset (concat (rev xs)) = mset (concat xs)"
  by (induction xs) simp_all

lemma minimaj_blocks_valid:
  assumes "valid_omp c"
  shows "\<exists>bb. minimaj_blocks c = Inr bb \<and> mset (concat bb) = mset (concat c)
            \<and> length bb = length c"
proof (cases "c = []")
  case True
  then show ?thesis by (simp add: minimaj_blocks_def)
next
  case False
  then have c: "c = butlast c @ [last c]" by simp
  from assms have all: "list_all (\<lambda>b. b \<noteq> []) c"
    by (simp add: valid_omp_def valid_block_def list_all_iff)
  then have 1: "list_all (\<lambda>b. b \<noteq> []) (rev (butlast c))"
    by (metis c list_all_append list_all_rev)
  have 2: "last c \<noteq> []"
    using all False by (simp add: list_all_iff)
  then have 3: "hd [sort (last c)] \<noteq> []"
    by (metis list.sel(1) mset_sort mset_zero_iff)
  from minimaj_loop_valid[OF 1 _ 3] obtain R where
    R: "minimaj_loop (rev (butlast c)) [sort (last c)] = Inr R"
       "mset (concat R) = mset (concat (rev (butlast c))) + mset (concat [sort (last c)])"
       "length R = length (rev (butlast c)) + length [sort (last c)]"
    by auto
  have "mset (concat (rev (butlast c))) = mset (concat (butlast c))"
    by (rule mset_concat_rev_eq)
  moreover have "mset (concat c) = mset (concat (butlast c)) + mset (last c)"
    by (subst c) simp
  ultimately have "mset (concat R) = mset (concat c)"
    using R(2) by simp
  moreover have "length R = length c"
    using R(3) False by simp
  ultimately show ?thesis
    using R(1) False by (simp add: minimaj_blocks_def)
qed

text \<open>
  C10. For every ordered multiset partition \<open>c\<close>, \<open>minimaj_word\<close> returns a word, and
  sorting that word in increasing order yields exactly \<open>c.multiset()\<close>: the minimaj
  reordering of the blocks adds, drops and changes no letter.
\<close>

theorem minimaj_word_rearranges_multiset:
  assumes "valid_omp c"
  shows "\<exists>w. minimaj_word c = Inr w \<and> sort w = get_multiset c"
proof -
  from minimaj_blocks_valid[OF assms] obtain bb where
    bb: "minimaj_blocks c = Inr bb" "mset (concat bb) = mset (concat c)" by blast
  have "sort (concat bb) = sort (concat c)"
    using bb(2) by (metis mset_sort properties_for_sort sorted_sort)
  then show ?thesis
    using bb(1) by (simp add: minimaj_word_def get_multiset_def concatenate_def)
qed

section \<open>The minimaj statistic\<close>

lemma sum_list_plus_length: "sum_list xs + length xs = sum_list (map (\<lambda>j. j + 1) xs)"
  by (induction xs) simp_all

lemma descents_sum:
  "sum_list (descents w) + length (descents w)
     = (\<Sum>j | j + 1 < length w \<and> w ! (j + 1) < w ! j. j + 1)"
proof -
  have d: "distinct (descents w)"
    by (simp add: descents_def)
  have s: "set (descents w) = {j. j + 1 < length w \<and> w ! (j + 1) < w ! j}"
    by (auto simp: descents_def)
  have "sum_list (descents w) + length (descents w) = sum_list (map (\<lambda>j. j + 1) (descents w))"
    by (rule sum_list_plus_length)
  also have "\<dots> = sum (\<lambda>j. j + 1) (set (descents w))"
    using d by (rule sum_list_distinct_conv_sum_set)
  finally show ?thesis by (simp add: s)
qed

lemma minimaj_example: "minimaj example_omp = Inr 30"
  by (simp add: example_omp_def minimaj_def minimaj_word_def minimaj_blocks_def
      minimaj_step_def descents_def concatenate_def upt_rec[of _ "numeral _"])

text \<open>
  C2. For every ordered multiset partition, \<open>minimaj()\<close> returns the sum, over the
  descents \<open>j\<close> of its minimaj word (0-indexed positions with \<open>w[j] > w[j+1]\<close>), of
  \<open>j + 1\<close>; it is 0 on the empty partition and 30 on
  \<open>[{1,5,7},{2,4},{5,6},{4,6,8},{1,3},{1,2,3}]\<close>.
\<close>

theorem minimaj_sum_over_descents:
  "(valid_omp c \<longrightarrow>
      (\<exists>w. minimaj_word c = Inr w
         \<and> minimaj c = Inr (\<Sum>j | j + 1 < length w \<and> w ! (j + 1) < w ! j. j + 1)))
   \<and> minimaj ([] :: int omp) = Inr 0
   \<and> minimaj example_omp = Inr 30"
proof (intro conjI impI)
  assume "valid_omp c"
  from minimaj_blocks_valid[OF this] obtain bb where bb: "minimaj_blocks c = Inr bb"
    by blast
  then show "\<exists>w. minimaj_word c = Inr w
         \<and> minimaj c = Inr (\<Sum>j | j + 1 < length w \<and> w ! (j + 1) < w ! j. j + 1)"
    by (simp add: minimaj_def minimaj_word_def Let_def descents_sum)
next
  show "minimaj ([] :: int omp) = Inr 0"
    by (simp add: minimaj_def minimaj_word_def minimaj_blocks_def descents_def concatenate_def)
next
  show "minimaj example_omp = Inr 30"
    by (rule minimaj_example)
qed

lemma valid_example_omp: "valid_omp example_omp"
  by (simp add: valid_omp_def valid_block_def example_omp_def)

lemma minimaj_word_example:
  "minimaj_word example_omp = Inr [5, 7, 1, 2, 4, 5, 6, 4, 6, 8, 3, 1, 1, 2, 3]"
  by (simp add: example_omp_def minimaj_word_def minimaj_blocks_def minimaj_step_def
      concatenate_def)

theorem minimaj_sum_over_descents_witness:
  "valid_omp example_omp
   \<and> minimaj_word example_omp = Inr [5, 7, 1, 2, 4, 5, 6, 4, 6, 8, 3, 1, 1, 2, 3]
   \<and> minimaj example_omp
       = Inr (\<Sum>j | j + 1 < length [5, 7, 1, 2, 4, 5, 6, 4, 6, 8, 3, 1, 1, 2, 3 :: int]
                \<and> [5, 7, 1, 2, 4, 5, 6, 4, 6, 8, 3, 1, 1, 2, 3 :: int] ! (j + 1)
                    < [5, 7, 1, 2, 4, 5, 6, 4, 6, 8, 3, 1, 1, 2, 3] ! j. j + 1)
   \<and> minimaj example_omp = Inr 30"
  using minimaj_sum_over_descents[of example_omp] valid_example_omp minimaj_word_example
  by auto

theorem minimaj_word_rearranges_multiset_witness:
  "valid_omp example_omp
   \<and> minimaj_word example_omp = Inr [5, 7, 1, 2, 4, 5, 6, 4, 6, 8, 3, 1, 1, 2, 3]
   \<and> sort [5, 7, 1, 2, 4, 5, 6, 4, 6, 8, 3, 1, 1, 2, 3] = get_multiset example_omp"
  using minimaj_word_rearranges_multiset[OF valid_example_omp] valid_example_omp
    minimaj_word_example
  by auto

section \<open>Refinements and coarsenings meet in one point\<close>

lemma map_result_Inr:
  assumes "\<And>x. x \<in> set xs \<Longrightarrow> f x = Inr (g x)"
  shows "map_result f xs = Inr (map g xs)"
  using assms by (induction xs) simp_all

lemma Set_of_valid: "sorted b \<Longrightarrow> distinct b \<Longrightarrow> Set_of b = b"
  by (simp add: Set_of_def sorted_list_of_set.idem_if_sorted_distinct)

lemma Set_of_idem: "Set_of (Set_of xs) = Set_of xs"
  by (simp add: Set_of_def)

lemma Set_of_Nil_iff: "Set_of xs = [] \<longleftrightarrow> xs = []"
  by (simp add: Set_of_def)

lemma length_Set_of_le: "length (Set_of xs) \<le> length xs"
  unfolding Set_of_def by (metis card_length length_sorted_list_of_set)

lemma length_Set_of_eq: "length (Set_of xs) = length xs \<longleftrightarrow> distinct xs"
  unfolding Set_of_def by (metis card_distinct distinct_card length_sorted_list_of_set)

lemma mset_Set_of: "distinct xs \<Longrightarrow> mset (Set_of xs) = mset xs"
  unfolding Set_of_def by (metis mset_set_set mset_sorted_list_of_multiset sorted_list_of_mset_set)

lemma Compositions_Suc_iff:
  "g \<in> set (Compositions (Suc n))
     \<longleftrightarrow> (\<exists>k alpha. k \<le> n \<and> alpha \<in> set (Compositions (n - k)) \<and> g = Suc k # alpha)"
proof -
  have "set (Compositions (Suc n))
          = (\<Union>k\<in>{0..<Suc n}. (\<lambda>alpha. Suc k # alpha) ` set (Compositions (n - k)))"
    by (simp only: Compositions.simps set_concat set_map set_upt image_image)
  also have "g \<in> \<dots> \<longleftrightarrow> (\<exists>k alpha. k \<le> n \<and> alpha \<in> set (Compositions (n - k)) \<and> g = Suc k # alpha)"
    by (auto simp: less_Suc_eq_le)
  finally show ?thesis .
qed

lemma Compositions_sound:
  "g \<in> set (Compositions n) \<Longrightarrow> sum_list g = n \<and> 0 \<notin> set g"
proof (induction n arbitrary: g rule: less_induct)
  case (less n)
  show ?case
  proof (cases n)
    case 0
    with less.prems show ?thesis by simp
  next
    case (Suc m)
    with less.prems have "g \<in> set (Compositions (Suc m))" by simp
    then obtain k alpha where
      k: "k \<le> m" "alpha \<in> set (Compositions (m - k))" "g = Suc k # alpha"
      unfolding Compositions_Suc_iff by blast
    have "m - k < n" using Suc by simp
    from less.IH[OF this k(2)] show ?thesis
      using k(1,3) Suc by simp
  qed
qed

lemma Compositions_ones: "replicate n (Suc 0) \<in> set (Compositions n)"
proof (induction n)
  case 0
  then show ?case by simp
next
  case (Suc n)
  have "\<exists>k alpha. k \<le> n \<and> alpha \<in> set (Compositions (n - k))
          \<and> replicate (Suc n) (Suc 0) = Suc k # alpha"
    using Suc by (intro exI[of _ 0] exI[of _ "replicate n (Suc 0)"]) simp
  then show ?case
    unfolding Compositions_Suc_iff .
qed

lemma length_le_sum_list: "0 \<notin> set g \<Longrightarrow> length g \<le> sum_list g"
  by (induction g) auto

lemma is_initial_segment_word:
  "w \<noteq> [] \<Longrightarrow> is_initial_segment (sorted_list_of_set (set w)) = Inr (initial_labels w)"
  by (simp add: is_initial_segment_def initial_labels_def)

lemma refine_words_Inr:
  assumes "\<And>w. w \<in> set ws \<Longrightarrow> w \<noteq> []"
  shows "refine_words X ws = Inr (map (refine_word X) (filter initial_labels ws))"
  using assms by (induction ws) (simp_all add: is_initial_segment_word)

lemma refine_block_Inr:
  assumes "S \<noteq> []"
  shows "refine_block S strong
           = Inr (map (refine_word S)
                   (filter initial_labels (IntegerListsLex (length S) (length S) strong)))"
  unfolding refine_block_def
proof (rule refine_words_Inr)
  fix w assume "w \<in> set (IntegerListsLex (length S) (length S) strong)"
  then have "length w = length S"
    by (auto simp: IntegerListsLex_def dest: length_n_lists_elem)
  with assms show "w \<noteq> []" by auto
qed

lemma initial_labels_set:
  assumes "initial_labels w"
  shows "set w = {0..<Max (set w) + 1}"
proof -
  have "set [0..<Max (set w) + 1] = set (sorted_list_of_set (set w))"
    using assms by (simp only: initial_labels_def)
  then show ?thesis
    by (metis set_upt set_sorted_list_of_set List.finite_set)
qed

lemma length_refine_word: "length (refine_word X w) = Max (set w) + 1"
  by (simp add: refine_word_def)

lemma refine_word_pieces:
  assumes "initial_labels w" "length w = length X" "p \<in> set (refine_word X w)"
  shows "p \<noteq> [] \<and> Set_of p = p"
proof -
  from assms(3) obtain l where l: "l < Max (set w) + 1"
    and p: "p = Set_of (map (\<lambda>pos. X ! pos) (filter (\<lambda>pos. w ! pos = l) [0..<length X]))"
    unfolding refine_word_def set_map by (auto simp del: upt_Suc)
  from l have "l \<in> {0..<Max (set w) + 1}" by simp
  with initial_labels_set[OF assms(1)] have "l \<in> set w" by blast
  then obtain pos where "pos < length w" "w ! pos = l"
    by (auto simp: in_set_conv_nth)
  then have "pos \<in> set (filter (\<lambda>pos. w ! pos = l) [0..<length X])"
    using assms(2) by simp
  then have "filter (\<lambda>pos. w ! pos = l) [0..<length X] \<noteq> []"
    by (metis empty_iff empty_set)
  then show ?thesis
    by (simp add: p Set_of_Nil_iff Set_of_idem)
qed

lemma sum_filter_mset_labels:
  "(\<Sum>l\<leftarrow>[0..<m]. filter_mset (\<lambda>x. f x = l) A) = filter_mset (\<lambda>x. f x < m) A"
proof (induction m)
  case 0
  then show ?case by simp
next
  case (Suc m)
  have "filter_mset (\<lambda>x. f x < Suc m) A
          = filter_mset (\<lambda>x. f x < m) A + filter_mset (\<lambda>x. f x = m) A"
    by (induction A) (auto simp: less_Suc_eq)
  with Suc show ?case by simp
qed

lemma mset_concat_map: "mset (concat (map f xs)) = (\<Sum>x\<leftarrow>xs. mset (f x))"
  by (induction xs) simp_all

lemma sum_list_image_mset:
  "(\<Sum>x\<leftarrow>xs. image_mset f (g x)) = image_mset f (\<Sum>x\<leftarrow>xs. g x)"
  by (induction xs) simp_all

lemma mset_refine_word:
  assumes "distinct X" "length w = length X"
  shows "mset (concat (refine_word X w)) = mset X"
proof -
  let ?pos = "\<lambda>l. filter (\<lambda>pos. w ! pos = l) [0..<length X]"
  have piece: "mset (Set_of (map (\<lambda>pos. X ! pos) (?pos l)))
                 = image_mset (\<lambda>pos. X ! pos) (filter_mset (\<lambda>pos. w ! pos = l) (mset [0..<length X]))"
    for l
  proof -
    have "distinct (map (\<lambda>pos. X ! pos) (?pos l))"
      using assms(1) by (auto simp: distinct_map inj_on_def nth_eq_iff_index_eq)
    then show ?thesis
      by (simp add: mset_Set_of)
  qed
  have "mset (concat (refine_word X w))
          = (\<Sum>l\<leftarrow>[0..<Max (set w) + 1]. image_mset (\<lambda>pos. X ! pos)
                (filter_mset (\<lambda>pos. w ! pos = l) (mset [0..<length X])))"
    unfolding refine_word_def mset_concat_map by (simp only: piece)
  also have "\<dots> = image_mset (\<lambda>pos. X ! pos)
                (\<Sum>l\<leftarrow>[0..<Max (set w) + 1]. filter_mset (\<lambda>pos. w ! pos = l) (mset [0..<length X]))"
    by (rule sum_list_image_mset)
  finally have 1: "mset (concat (refine_word X w)) = image_mset (\<lambda>pos. X ! pos)
                (filter_mset (\<lambda>pos. w ! pos < Max (set w) + 1) (mset [0..<length X]))"
    by (simp only: sum_filter_mset_labels)
  have "filter_mset (\<lambda>pos. w ! pos < Max (set w) + 1) (mset [0..<length X]) = mset [0..<length X]"
  proof (rule filter_mset_eq_conv[THEN iffD2], intro conjI ballI)
    show "mset [0..<length X] \<subseteq># mset [0..<length X]" by simp
  next
    fix pos assume "pos \<in># mset [0..<length X]"
    then have "pos < length w" using assms(2) by simp
    then have "w ! pos \<le> Max (set w)" by simp
    then show "w ! pos < Max (set w) + 1" by simp
  next
    fix pos assume "pos \<in># mset [0..<length X] - mset [0..<length X]"
    then show "\<not> w ! pos < Max (set w) + 1" by simp
  qed
  with 1 have "mset (concat (refine_word X w)) = image_mset (\<lambda>pos. X ! pos) (mset [0..<length X])"
    by simp
  also have "\<dots> = mset (map (\<lambda>pos. X ! pos) [0..<length X])" by simp
  also have "\<dots> = mset X" by (simp only: map_nth)
  finally show ?thesis .
qed

lemma refine_word_zero:
  assumes "w \<noteq> []" "Max (set w) = 0" "length w = length X"
  shows "refine_word X w = [Set_of X]"
proof -
  have "w ! pos = 0" if "pos < length X" for pos
  proof -
    from that assms(3) have "w ! pos \<in> set w" by simp
    then have "w ! pos \<le> Max (set w)" by simp
    with assms(2) show ?thesis by simp
  qed
  then have "filter (\<lambda>pos. w ! pos = 0) [0..<length X] = [0..<length X]"
    by (simp add: filter_id_conv)
  then have "map (\<lambda>pos. X ! pos) (filter (\<lambda>pos. w ! pos = 0) [0..<length X]) = X"
    by (simp only: map_nth)
  then show ?thesis
    by (simp add: refine_word_def assms(2))
qed

lemma listing_block:
  assumes "valid_block S" "mset X = mset S"
  shows "X \<noteq> []" "distinct X" "Set_of X = S" "length X = length S"
proof -
  from assms(1) have S: "S \<noteq> []" "distinct S" "Set_of S = S"
    by (simp_all add: valid_block_def Set_of_valid)
  show "X \<noteq> []" using assms(2) S(1) by auto
  show "distinct X" using assms(2) S(2) by (metis mset_eq_imp_distinct_iff)
  have "set X = set S" using assms(2) by (rule mset_eq_setD)
  then show "Set_of X = S" using S(3) by (simp add: Set_of_def)
  show "length X = length S" using assms(2) by (rule mset_eq_length)
qed

lemma refinements_self:
  assumes "valid_block S" "mset X = mset S"
  shows "[S] \<in> set (refinements X)"
proof -
  let ?w = "replicate (length X) (0::nat)"
  note X = listing_block[OF assms]
  from X(1) have n: "0 < length X" by simp
  then have s: "set ?w = {0}" by simp
  have w: "?w \<in> set (IntegerListsLex (length X) (length X) False)"
    using n by (auto simp: IntegerListsLex_def set_n_lists)
  have "initial_labels ?w"
    unfolding initial_labels_def s by simp
  moreover have "refine_word X ?w = [S]"
    using refine_word_zero[of ?w X] n s X(3) by simp
  ultimately show ?thesis
    unfolding refinements_def using w by force
qed

lemma refinements_props:
  assumes "valid_block S" "mset X = mset S" "a \<in> set (refinements X)"
  shows "a \<noteq> []" "\<forall>p\<in>set a. p \<noteq> [] \<and> Set_of p = p" "mset (concat a) = mset S"
    "length a = 1 \<longrightarrow> a = [S]"
proof -
  from assms(3) obtain w where w: "w \<in> set (IntegerListsLex (length X) (length X) False)"
    "initial_labels w" "a = refine_word X w"
    by (auto simp: refinements_def)
  from w(1) have len: "length w = length X"
    by (auto simp: IntegerListsLex_def dest: length_n_lists_elem)
  note X = listing_block[OF assms(1,2)]
  show "a \<noteq> []"
    using length_refine_word[of X w] w(3) by auto
  show "\<forall>p\<in>set a. p \<noteq> [] \<and> Set_of p = p"
    using refine_word_pieces[OF w(2) len] w(3) by blast
  show "mset (concat a) = mset S"
    using mset_refine_word[OF X(2) len] w(3) assms(2) by simp
  show "length a = 1 \<longrightarrow> a = [S]"
  proof
    assume "length a = 1"
    then have "Max (set w) = 0"
      using length_refine_word[of X w] w(3) by simp
    moreover have "w \<noteq> []" using len X(1) by auto
    ultimately show "a = [S]"
      using refine_word_zero[of w X] len X(3) w(3) by simp
  qed
qed

lemma cartesian_product_mem:
  "t \<in> set (cartesian_product xss) \<longleftrightarrow> list_all2 (\<lambda>x xs. x \<in> set xs) t xss"
  by (induction xss arbitrary: t) (auto simp: list_all2_Cons2)

lemma finer_tuple:
  assumes "list_all2 (\<lambda>a S. a \<in> set (refinements (listing S))) t c" "valid_omp c"
    and "\<And>S. mset (listing S) = mset S"
  shows "(\<forall>p\<in>set (concat t). p \<noteq> [] \<and> Set_of p = p)
       \<and> mset (concat (concat t)) = mset (concat c)
       \<and> length c \<le> length (concat t)
       \<and> (length (concat t) = length c \<longrightarrow> concat t = c)"
  using assms
proof (induction rule: list_all2_induct)
  case Nil
  then show ?case by simp
next
  case (Cons a t S c)
  from Cons.prems have S: "valid_block S" and c: "valid_omp c"
    by (simp_all add: valid_omp_def)
  note P = refinements_props[OF S Cons.prems(2) Cons.hyps(1)]
  note IH = Cons.IH[OF c Cons.prems(2)]
  from P(1) have la: "1 \<le> length a" by (cases a) simp_all
  have 1: "\<forall>p\<in>set (concat (a # t)). p \<noteq> [] \<and> Set_of p = p"
    using P(2) IH by auto
  have 2: "mset (concat (concat (a # t))) = mset (concat (S # c))"
    using P(3) IH by simp
  have 3: "length (S # c) \<le> length (concat (a # t))"
    using la IH by simp
  have 4: "length (concat (a # t)) = length (S # c) \<longrightarrow> concat (a # t) = S # c"
  proof
    assume e: "length (concat (a # t)) = length (S # c)"
    with la IH have "length a = 1" "length (concat t) = length c" by simp_all
    with P(4) IH show "concat (a # t) = S # c" by simp
  qed
  from 1 2 3 4 show ?case by blast
qed

lemma valid_omp_blocks:
  assumes "valid_omp c"
  shows "has_valid_blocks c" "map Set_of c = c" "filter (\<lambda>block. block \<noteq> []) c = c"
proof -
  from assms have b: "\<And>b. b \<in> set c \<Longrightarrow> b \<noteq> [] \<and> sorted b \<and> distinct b"
    by (simp add: valid_omp_def valid_block_def list_all_iff)
  show "has_valid_blocks c"
    using b by (simp add: has_valid_blocks_def list_all_iff length_Set_of_eq)
  show "map Set_of c = c"
    using b by (simp add: map_idI Set_of_valid)
  show "filter (\<lambda>block. block \<noteq> []) c = c"
    using b by (simp add: filter_id_conv)
qed

lemma element_X_pieces:
  assumes "\<forall>p\<in>set d. p \<noteq> [] \<and> Set_of p = p" "mset (concat d) = mset (concat c)"
  shows "element_X (get_multiset c) d = Inr d"
proof -
  have "has_valid_blocks d"
    using assms(1) by (simp add: has_valid_blocks_def list_all_iff)
  moreover have "get_multiset d = get_multiset c"
    unfolding get_multiset_def concatenate_def
    using assms(2) by (metis mset_sort properties_for_sort sorted_sort)
  moreover have "map Set_of (filter (\<lambda>block. block \<noteq> []) d) = d"
    using assms(1) by (simp add: map_idI filter_id_conv)
  ultimately show ?thesis
    by (simp add: element_X_def has_valid_blocks_X_def)
qed

lemma finer_valid:
  assumes "valid_omp c" and "\<And>S. mset (listing S) = mset S"
  shows "\<exists>F. finer listing c False = Inr F \<and> c \<in> set F
           \<and> (\<forall>d\<in>set F. length c \<le> length d \<and> (length d = length c \<longrightarrow> d = c))"
proof (cases "c = []")
  case True
  then show ?thesis by (simp add: finer_def)
next
  case False
  let ?rs = "map (\<lambda>S. refinements (listing S)) c"
  let ?F = "map concat (cartesian_product ?rs)"
  have blocks: "\<And>b. b \<in> set c \<Longrightarrow> valid_block b"
    using assms by (simp add: valid_omp_def list_all_iff)
  have 1: "map_result (\<lambda>block. refine_block (listing block) False) c = Inr ?rs"
  proof (rule map_result_Inr)
    fix b assume "b \<in> set c"
    then have "listing b \<noteq> []" using blocks listing_block(1)[OF _ assms(2)] by blast
    then show "refine_block (listing b) False = Inr (refinements (listing b))"
      by (simp add: refine_block_Inr refinements_def)
  qed
  have tup: "list_all2 (\<lambda>a S. a \<in> set (refinements (listing S))) t c" if "t \<in> set (cartesian_product ?rs)" for t
    using that by (simp add: cartesian_product_mem list_all2_map2)
  have 2: "map_result (\<lambda>t. element_X (get_multiset c) (concatenate t)) (cartesian_product ?rs)
             = Inr ?F"
  proof (rule map_result_Inr)
    fix t assume "t \<in> set (cartesian_product ?rs)"
    from finer_tuple[OF tup[OF this] assms]
    show "element_X (get_multiset c) (concatenate t) = Inr (concat t)"
      by (simp add: concatenate_def element_X_pieces)
  qed
  have F: "finer listing c False = Inr ?F"
    using False by (simp add: finer_def 1 2)
  have "list_all2 (\<lambda>a S. a \<in> set (refinements (listing S))) (map (\<lambda>b. [b]) c) c"
    using blocks assms(2) by (simp add: list_all2_map1 list_all2_same refinements_self)
  then have "map (\<lambda>b. [b]) c \<in> set (cartesian_product ?rs)"
    by (simp add: cartesian_product_mem list_all2_map2)
  then have "concat (map (\<lambda>b. [b]) c) \<in> set ?F"
    by (metis image_eqI set_map)
  then have mem: "c \<in> set ?F" by simp
  have "length c \<le> length d \<and> (length d = length c \<longrightarrow> d = c)" if "d \<in> set ?F" for d
  proof -
    from that obtain t where t: "t \<in> set (cartesian_product ?rs)" "d = concat t" by auto
    from finer_tuple[OF tup[OF t(1)] assms] t(2) show ?thesis by simp
  qed
  with F mem show ?thesis by blast
qed

lemma fatten_results:
  "map (\<lambda>i. slice c (sum_list (take i g)) (sum_list (take (i + 1) g))) [0..<length g]
     = chunks g c"
proof (induction g arbitrary: c)
  case Nil
  then show ?case by simp
next
  case (Cons k g)
  have "[0..<length (k # g)] = 0 # map Suc [0..<length g]"
    by (simp add: upt_conv_Cons map_Suc_upt del: upt_Suc)
  moreover have "slice c (k + a) (k + b) = slice (drop k c) a b" for a b
    by (simp add: slice_def add.commute)
  ultimately show ?case
    using Cons.IH[of "drop k c"] by (simp add: slice_def comp_def del: upt_Suc)
qed

lemma length_chunks: "length (chunks g c) = length g"
  by (induction g arbitrary: c) simp_all

lemma concat_chunks: "concat (chunks g c) = take (sum_list g) c"
  by (induction g arbitrary: c) (simp_all add: take_add)

lemma chunks_nonempty:
  "0 \<notin> set g \<Longrightarrow> sum_list g \<le> length c \<Longrightarrow> r \<in> set (chunks g c) \<Longrightarrow> r \<noteq> []"
proof (induction g arbitrary: c)
  case Nil
  then show ?case by simp
next
  case (Cons k g)
  from Cons.prems(1,2) have k: "0 < k" "k \<le> length c" "0 \<notin> set g" "sum_list g \<le> length (drop k c)"
    by auto
  from Cons.prems(3) have "r = take k c \<or> r \<in> set (chunks g (drop k c))" by simp
  then show ?case
  proof
    assume "r = take k c"
    with k(1,2) show ?thesis by (cases c) auto
  next
    assume "r \<in> set (chunks g (drop k c))"
    from Cons.IH[OF k(3,4) this] show ?thesis .
  qed
qed

lemma chunks_ones: "chunks (replicate (length c) (Suc 0)) c = map (\<lambda>b. [b]) c"
  by (induction c) simp_all

lemma concatenate_eq: "concatenate = concat"
  by (rule ext) (simp add: concatenate_def)

lemma concat_map_concat: "concat (map concat xss) = concat (concat xss)"
  by (induction xss) simp_all

lemma fatten_cases:
  assumes "valid_omp c" "sum_list g = length c" "0 \<notin> set g"
  shows "fatten c g = Inl ValueError \<or> (\<exists>d. fatten c g = Inr d \<and> length d \<le> length c)"
proof -
  let ?rs = "chunks g c"
  let ?valid = "list_all (\<lambda>result_i.
                   \<not> length (Set_of (concat result_i)) < sum_list (map length result_i)) ?rs"
  have f: "fatten c g = (if \<not> ?valid then Inl ValueError
                         else element_X (get_multiset c) (map concatenate ?rs))"
    unfolding fatten_def Let_def fatten_results using assms(2) by simp
  show ?thesis
  proof (cases ?valid)
    case False
    with f show ?thesis by simp
  next
    case True
    have cc: "concat ?rs = c"
      using assms(2) by (simp add: concat_chunks)
    have blocks: "\<And>b. b \<in> set c \<Longrightarrow> b \<noteq> []"
      using assms(1) by (simp add: valid_omp_def valid_block_def list_all_iff)
    have valid: "has_valid_blocks (map concatenate ?rs)"
      unfolding has_valid_blocks_def list_all_iff
    proof
      fix B assume "B \<in> set (map concatenate ?rs)"
      then obtain r where r: "r \<in> set ?rs" "B = concat r"
        by (auto simp: concatenate_eq)
      from chunks_nonempty[OF assms(3) _ r(1)] assms(2) have "r \<noteq> []" by simp
      moreover have "set r \<subseteq> set (concat ?rs)"
        using r(1) by auto
      then have "set r \<subseteq> set c"
        by (simp only: cc)
      ultimately have ne: "B \<noteq> []"
        using blocks r(2) by (cases r) auto
      from True r(1) have "\<not> length (Set_of (concat r)) < sum_list (map length r)"
        by (simp add: list_all_iff)
      then have "length (Set_of B) = length B"
        using length_Set_of_le[of B] r(2) by (simp add: length_concat)
      with ne show "\<not> (B = [] \<or> length (Set_of B) \<noteq> length B)" by simp
    qed
    have "get_multiset (map concatenate ?rs) = get_multiset c"
      by (simp add: get_multiset_def concatenate_eq concat_map_concat cc)
    with valid have "fatten c g
        = Inr (map Set_of (filter (\<lambda>block. block \<noteq> []) (map concatenate ?rs)))"
      using True f by (simp add: element_X_def has_valid_blocks_X_def)
    moreover have "length (map Set_of (filter (\<lambda>block. block \<noteq> []) (map concatenate ?rs)))
                     \<le> length c"
    proof -
      have "length (filter (\<lambda>block. block \<noteq> []) (map concatenate ?rs)) \<le> length g"
        by (metis length_filter_le length_map length_chunks)
      also have "\<dots> \<le> length c"
        using length_le_sum_list[OF assms(3)] assms(2) by simp
      finally show ?thesis by simp
    qed
    ultimately show ?thesis by blast
  qed
qed

lemma fatten_ones:
  assumes "valid_omp c"
  shows "fatten c (replicate (length c) (Suc 0)) = Inr c"
proof -
  have d: "\<And>b. b \<in> set c \<Longrightarrow> distinct b"
    using assms by (simp add: valid_omp_def valid_block_def list_all_iff)
  have 1: "map (\<lambda>i. slice c (sum_list (take i (replicate (length c) (Suc 0))))
                 (sum_list (take (i + 1) (replicate (length c) (Suc 0)))))
             [0..<length (replicate (length c) (Suc 0))] = map (\<lambda>b. [b]) c"
    by (simp only: fatten_results chunks_ones)
  have 2: "list_all (\<lambda>result_i.
              \<not> length (Set_of (concat result_i)) < sum_list (map length result_i))
            (map (\<lambda>b. [b]) c)"
    using d by (simp add: list_all_iff length_Set_of_eq[THEN iffD2])
  have 3: "map concatenate (map (\<lambda>b. [b]) c) = c"
    by (simp add: concatenate_eq comp_def)
  have "fatten c (replicate (length c) (Suc 0)) = element_X (get_multiset c) c"
    unfolding fatten_def Let_def 1 using 2 3 by (simp add: sum_list_replicate)
  also have "\<dots> = Inr c"
    using valid_omp_blocks[OF assms] by (simp add: element_X_def has_valid_blocks_X_def)
  finally show ?thesis .
qed

lemma fatter_loop_Inr:
  assumes "\<And>g. g \<in> set gs \<Longrightarrow>
             fatten c g = Inl ValueError \<or> (\<exists>d. fatten c g = Inr d \<and> P d)"
  shows "\<exists>G. fatter_loop c gs = Inr G \<and> (\<forall>d\<in>set G. P d)
           \<and> (\<forall>g\<in>set gs. \<forall>d. fatten c g = Inr d \<longrightarrow> d \<in> set G)"
  using assms
proof (induction gs)
  case Nil
  then show ?case by simp
next
  case (Cons g gs)
  have "\<exists>G. fatter_loop c gs = Inr G \<and> (\<forall>d\<in>set G. P d)
           \<and> (\<forall>g\<in>set gs. \<forall>d. fatten c g = Inr d \<longrightarrow> d \<in> set G)"
    by (rule Cons.IH) (simp add: Cons.prems)
  then obtain G where
    G: "fatter_loop c gs = Inr G" "\<forall>d\<in>set G. P d"
       "\<forall>g\<in>set gs. \<forall>d. fatten c g = Inr d \<longrightarrow> d \<in> set G"
    by blast
  from Cons.prems[of g] consider "fatten c g = Inl ValueError"
    | d where "fatten c g = Inr d" "P d" by auto
  then show ?case
  proof cases
    case 1
    with G show ?thesis by auto
  next
    case 2
    with G show ?thesis by auto
  qed
qed

lemma fatter_valid:
  assumes "valid_omp c"
  shows "\<exists>G. fatter c = Inr G \<and> c \<in> set G \<and> (\<forall>d\<in>set G. length d \<le> length c)"
proof -
  have "fatten c g = Inl ValueError \<or> (\<exists>d. fatten c g = Inr d \<and> length d \<le> length c)"
    if "g \<in> set (Compositions (length c))" for g
    using fatten_cases[OF assms] Compositions_sound[OF that] by simp
  from fatter_loop_Inr[of "Compositions (length c)" c "\<lambda>d. length d \<le> length c", OF this]
  obtain G where G: "fatter c = Inr G" "\<forall>d\<in>set G. length d \<le> length c"
    "\<forall>g\<in>set (Compositions (length c)). \<forall>d. fatten c g = Inr d \<longrightarrow> d \<in> set G"
    unfolding fatter_def by blast
  from G(3) Compositions_ones[of "length c"] fatten_ones[OF assms] have "c \<in> set G" by blast
  with G(1,2) show ?thesis by blast
qed

text \<open>
  C6. For every ordered multiset partition \<open>c\<close>, \<open>c.finer()\<close> and \<open>c.fatter()\<close> return, and the
  intersection of the two sets is exactly \<open>{c}\<close>, in whatever order the blocks list their
  elements.
\<close>

theorem finer_fatter_fixed_point:
  assumes "valid_omp c" and "\<forall>S. mset (listing S) = mset S"
  shows "\<exists>F G. finer listing c False = Inr F \<and> fatter c = Inr G \<and> set F \<inter> set G = {c}"
proof -
  from assms(2) have l: "\<And>S. mset (listing S) = mset S" by simp
  from finer_valid[OF assms(1) l] obtain F where
    F: "finer listing c False = Inr F" "c \<in> set F"
       "\<forall>d\<in>set F. length c \<le> length d \<and> (length d = length c \<longrightarrow> d = c)" by blast
  from fatter_valid[OF assms(1)] obtain G where
    G: "fatter c = Inr G" "c \<in> set G" "\<forall>d\<in>set G. length d \<le> length c" by blast
  have "set F \<inter> set G = {c}"
  proof (rule equalityI; rule subsetI)
    fix d assume "d \<in> set F \<inter> set G"
    then have dF: "d \<in> set F" and dG: "d \<in> set G" by simp_all
    from F(3) dF have 1: "length c \<le> length d" and 2: "length d = length c \<longrightarrow> d = c"
      by blast+
    from G(3) dG have 3: "length d \<le> length c" by blast
    from 1 3 have "length d = length c" by simp
    with 2 show "d \<in> {c}" by simp
  next
    fix d assume "d \<in> {c}"
    with F(2) G(2) show "d \<in> set F \<inter> set G" by simp
  qed
  with F(1) G(1) show ?thesis by blast
qed

text \<open>
  In strong mode the refinements follow the listing: the block \<open>{1, 8}\<close> listed as \<open>[8, 1]\<close>
  is cut into \<open>[{8}, {1}]\<close>, and listed as \<open>[1, 8]\<close> into \<open>[{1}, {8}]\<close>.
\<close>

lemma finer_strong_listing:
  "finer rev [[1, 8 :: int]] True = Inr [[[1, 8]], [[8], [1]]]
   \<and> finer (\<lambda>S. S) [[1, 8 :: int]] True = Inr [[[1, 8]], [[1], [8]]]"
  by code_simp

lemma valid_docstring_omp: "valid_omp docstring_omp"
  by (simp add: valid_omp_def valid_block_def docstring_omp_def)

lemma fatter_docstring_omp:
  "fatter docstring_omp = Inr [[[1,4,5],[2],[1,7]], [[1,4,5],[1,2,7]], [[1,2,4,5],[1,7]]]"
  by code_simp

theorem finer_fatter_fixed_point_witness:
  "valid_omp docstring_omp \<and> (\<forall>S :: int list. mset (rev S) = mset S)
   \<and> (\<exists>F. finer rev docstring_omp False = Inr F
          \<and> set F \<inter> set [[[1,4,5],[2],[1,7]], [[1,4,5],[1,2,7]], [[1,2,4,5],[1,7]]]
              = {docstring_omp})"
proof -
  have l: "\<forall>S :: int list. mset (rev S) = mset S" by simp
  from finer_fatter_fixed_point[OF valid_docstring_omp l] valid_docstring_omp
    fatter_docstring_omp l
  show ?thesis by auto
qed

section \<open>The refinement test on equal partitions\<close>

lemma trim_prefix_same: "trim_prefix xs xs = Inl IndexError"
  by (induction xs) simp_all

text \<open>
  C7 (the code departs from the claim). When \<open>a\<close> equals \<open>b\<close>, \<open>a.is_finer(b)\<close> returns no
  boolean: the loop that trims the common prefix runs past the end of both lists and
  \<open>co1[0]\<close> raises \<open>IndexError\<close>, although \<open>a\<close> is a member of \<open>a.finer()\<close>.
\<close>

theorem is_finer_self_raises:
  assumes "valid_omp a" and "\<forall>S. mset (listing S) = mset S"
  shows "is_finer listing a a = Inl IndexError
         \<and> (\<exists>F. finer listing a False = Inr F \<and> a \<in> set F)"
proof -
  from assms(2) have l: "\<And>S. mset (listing S) = mset S" by simp
  from valid_omp_blocks[OF assms(1)] have "element_X (get_multiset a) a = Inr a"
    by (simp add: element_X_def has_valid_blocks_X_def)
  then have "is_finer listing a a = Inl IndexError"
    by (simp add: is_finer_def trim_prefix_same)
  with finer_valid[OF assms(1) l] show ?thesis by blast
qed

theorem is_finer_self_raises_witness:
  "valid_omp docstring_omp \<and> (\<forall>S :: int list. mset (rev S) = mset S)
   \<and> is_finer rev docstring_omp docstring_omp = Inl IndexError
   \<and> (\<exists>F. finer rev docstring_omp False = Inr F \<and> docstring_omp \<in> set F)"
proof -
  have l: "\<forall>S :: int list. mset (rev S) = mset S" by simp
  from is_finer_self_raises[OF valid_docstring_omp l] valid_docstring_omp l
  show ?thesis by simp
qed

section \<open>The soll ordering on numeric partitions\<close>

text \<open>
  C8 (the code departs from the claim). For two partitions whose letters are all positive
  integers, with equal and nonzero size, equal order and equal length, \<open>soll_gt\<close> returns no
  boolean: it raises \<open>UnboundLocalError\<close>.
\<close>

theorem soll_gt_numeric_raises:
  assumes "size_omp co1 = Some n" "size_omp co2 = Some n" "n \<noteq> 0"
    "order_omp co1 = order_omp co2" "length co1 = length co2"
  shows "soll_gt co1 co2 = Inl UnboundLocalError"
  using assms by (simp add: soll_gt_def)

theorem soll_gt_numeric_raises_witness:
  "size_omp soll_C = Some 16 \<and> size_omp soll_D4 = Some 16 \<and> (16::int) \<noteq> 0
   \<and> order_omp soll_C = order_omp soll_D4 \<and> length soll_C = length soll_D4
   \<and> soll_gt soll_C soll_D4 = Inl UnboundLocalError"
proof -
  have 1: "size_omp soll_C = Some 16" by code_simp
  have 2: "size_omp soll_D4 = Some 16" by code_simp
  have 3: "order_omp soll_C = order_omp soll_D4" by code_simp
  have 4: "length soll_C = length soll_D4" by code_simp
  from soll_gt_numeric_raises[OF 1 2 _ 3 4] 1 2 3 4 show ?thesis by simp
qed

declare Permutations_mset.simps [simp del]

section \<open>The cardinality of the family of the empty multiset\<close>

lemma Permutations_mset_Nil: "Permutations_mset [] = [[]]"
  by (simp add: Permutations_mset.simps)

lemma formula_empty_multiset:
  "(\<Sum>alpha\<leftarrow>Permutations_mset (Xtup ([] :: (int \<times> nat) list)).
      (\<Prod>k\<leftarrow>break_at_descents alpha True. 2 ^ (length k - 1))) = (1::nat)"
  by (simp add: Xtup_def break_at_descents_def Permutations_mset_Nil)

lemma iterator_weight_empty: "iterator_weight listing ([] :: (int \<times> nat) list) = Inr [[]]"
  by (simp add: iterator_weight_def Xtup_def element_X_def has_valid_blocks_X_def
      has_valid_blocks_def get_multiset_def concatenate_def)

lemma cardinality_X_docstring: "cardinality_X [(1::int, 2), (4, 1)] = 5"
  by code_simp

lemma iterator_weight_docstring:
  "iterator_weight (\<lambda>S. S) [(1::int, 2), (4, 1)]
     = Inr [[[1], [1, 4]], [[1], [1], [4]], [[1, 4], [1]], [[1], [4], [1]], [[4], [1], [1]]]"
  by code_simp

text \<open>
  C1 (the code departs from the claim). For the empty multiset the sum of the formula,
  over the single empty permutation, is 1 and the family has exactly one member, the
  empty partition, which \<open>__iter__\<close> yields; \<open>cardinality()\<close> returns 0. For the weight
  \<open>{1:2, 4:1}\<close> it returns 5, the number of partitions that \<open>__iter__\<close> yields (the blocks
  \<open>{1}\<close>, \<open>{4}\<close> and \<open>{1,4}\<close> list their elements in increasing order).
\<close>

theorem cardinality_X_empty_multiset:
  "cardinality_X ([] :: (int \<times> nat) list) = 0
   \<and> iterator_weight (\<lambda>S. S) ([] :: (int \<times> nat) list) = Inr [[]]
   \<and> (\<Sum>alpha\<leftarrow>Permutations_mset (Xtup ([] :: (int \<times> nat) list)).
         (\<Prod>k\<leftarrow>break_at_descents alpha True. 2 ^ (length k - 1))) = (1::nat)
   \<and> cardinality_X [(1::int, 2), (4, 1)] = 5
   \<and> map_sum id length (iterator_weight (\<lambda>S. S) [(1::int, 2), (4, 1)]) = Inr 5"
proof -
  have 1: "cardinality_X ([] :: (int \<times> nat) list) = 0"
    by (simp add: cardinality_X_def Xtup_def)
  have 2: "map_sum id length (iterator_weight (\<lambda>S. S) [(1::int, 2), (4, 1)]) = Inr 5"
    unfolding iterator_weight_docstring by simp
  show ?thesis
    by (intro conjI; (rule 1 2 iterator_weight_empty formula_empty_multiset
          cardinality_X_docstring))
qed

section \<open>The generating function of partitions into distinct parts\<close>

lemma coeff_Nil: "coeff [] d = 0"
  by (simp add: coeff_def)

lemma coeff_Cons_0: "coeff (x # p) 0 = x"
  by (simp add: coeff_def)

lemma coeff_Cons_Suc: "coeff (x # p) (Suc d) = coeff p d"
  by (simp add: coeff_def)

lemma coeff_poly_add: "coeff (poly_add p q) d = coeff p d + coeff q d"
proof (induction p q arbitrary: d rule: poly_add.induct)
  case (1 q)
  then show ?case by (simp add: coeff_Nil)
next
  case (2 x p)
  then show ?case by (simp add: coeff_Nil)
next
  case (3 x p y q)
  show ?case
  proof (cases d)
    case 0
    then show ?thesis by (simp add: coeff_Cons_0)
  next
    case (Suc d')
    with "3.IH"[of d'] show ?thesis by (simp add: coeff_Cons_Suc)
  qed
qed

lemma length_poly_add: "length (poly_add p q) = max (length p) (length q)"
  by (induction p q rule: poly_add.induct) simp_all

lemma coeff_shift: "coeff (replicate k 0 @ p) d = (if k \<le> d then coeff p (d - k) else 0)"
  by (auto simp: coeff_def nth_append)

lemma coeff_times:
  "coeff (times_one_plus_power p k) d = coeff p d + (if k \<le> d then coeff p (d - k) else 0)"
  by (simp only: times_one_plus_power_def coeff_poly_add coeff_shift)

lemma length_times: "length (times_one_plus_power p k) = k + length p"
  by (simp add: times_one_plus_power_def length_poly_add)

lemma parts_product_0: "parts_product 0 = [1]"
  by (simp add: parts_product_def)

lemma parts_product_Suc:
  "parts_product (Suc m) = times_one_plus_power (parts_product m) (Suc m)"
  by (simp add: parts_product_def)

lemma length_parts_product: "m + 1 \<le> length (parts_product m)"
  by (induction m) (simp_all add: parts_product_0 parts_product_Suc length_times)

lemma finite_bounded_partitions: "finite (bounded_partitions m d)"
proof (rule finite_subset)
  show "bounded_partitions m d \<subseteq> Pow {1..m}"
    by (auto simp: bounded_partitions_def)
  show "finite (Pow {1..m})" by simp
qed

lemma bounded_partitions_0: "bounded_partitions 0 d = (if d = 0 then {{}} else {})"
  by (auto simp: bounded_partitions_def)

lemma bounded_partitions_Suc:
  "bounded_partitions (Suc m) d
     = bounded_partitions m d
       \<union> (if Suc m \<le> d then insert (Suc m) ` bounded_partitions m (d - Suc m) else {})"
proof (rule equalityI; rule subsetI)
  fix S assume S: "S \<in> bounded_partitions (Suc m) d"
  then have sub: "S \<subseteq> {1..Suc m}" and sum: "\<Sum>S = d"
    by (simp_all add: bounded_partitions_def)
  have fin: "finite S" using sub by (rule finite_subset) simp
  show "S \<in> bounded_partitions m d
       \<union> (if Suc m \<le> d then insert (Suc m) ` bounded_partitions m (d - Suc m) else {})"
  proof (cases "Suc m \<in> S")
    case False
    with sub have "S \<subseteq> {1..m}"
      by (metis atLeastAtMost_iff le_Suc_eq subset_iff)
    with sum show ?thesis by (simp add: bounded_partitions_def)
  next
    case True
    let ?T = "S - {Suc m}"
    have T: "?T \<subseteq> {1..m}"
      using sub by (auto simp: le_Suc_eq)
    have "\<Sum>S = Suc m + \<Sum>?T"
      using fin True by (simp add: sum.remove)
    with sum have le: "Suc m \<le> d" and "\<Sum>?T = d - Suc m" by simp_all
    with T have "?T \<in> bounded_partitions m (d - Suc m)"
      by (simp add: bounded_partitions_def)
    moreover have "S = insert (Suc m) ?T" using True by blast
    ultimately have "S \<in> insert (Suc m) ` bounded_partitions m (d - Suc m)"
      by (rule rev_image_eqI)
    with le show ?thesis by simp
  qed
next
  fix S assume "S \<in> bounded_partitions m d
       \<union> (if Suc m \<le> d then insert (Suc m) ` bounded_partitions m (d - Suc m) else {})"
  then consider "S \<in> bounded_partitions m d"
    | T where "Suc m \<le> d" "T \<in> bounded_partitions m (d - Suc m)" "S = insert (Suc m) T"
    by (auto split: if_splits)
  then show "S \<in> bounded_partitions (Suc m) d"
  proof cases
    case 1
    then show ?thesis by (auto simp: bounded_partitions_def)
  next
    case 2
    then have T: "T \<subseteq> {1..m}" "\<Sum>T = d - Suc m" by (simp_all add: bounded_partitions_def)
    have fin: "finite T" using T(1) by (rule finite_subset) simp
    have "Suc m \<notin> T" using T(1) by auto
    then have "\<Sum>(insert (Suc m) T) = Suc m + \<Sum>T"
      using fin by simp
    with 2(1) T(2) have "\<Sum>(insert (Suc m) T) = d" by simp
    moreover have "insert (Suc m) T \<subseteq> {1..Suc m}" using T(1) by auto
    ultimately show ?thesis using 2(3) by (simp add: bounded_partitions_def)
  qed
qed

lemma card_bounded_partitions_Suc:
  "card (bounded_partitions (Suc m) d)
     = card (bounded_partitions m d)
       + (if Suc m \<le> d then card (bounded_partitions m (d - Suc m)) else 0)"
proof (cases "Suc m \<le> d")
  case False
  then show ?thesis by (simp add: bounded_partitions_Suc)
next
  case True
  let ?A = "bounded_partitions m d"
  let ?B = "insert (Suc m) ` bounded_partitions m (d - Suc m)"
  have notin: "Suc m \<notin> T" if "T \<in> bounded_partitions m e" for T e
    using that by (auto simp: bounded_partitions_def)
  have inj: "inj_on (insert (Suc m)) (bounded_partitions m (d - Suc m))"
  proof (rule inj_onI)
    fix T U assume "T \<in> bounded_partitions m (d - Suc m)" "U \<in> bounded_partitions m (d - Suc m)"
      "insert (Suc m) T = insert (Suc m) U"
    with notin[of T] notin[of U] show "T = U"
      by (metis insert_ident)
  qed
  have disj: "?A \<inter> ?B = {}"
    using notin by fastforce
  have "card (?A \<union> ?B) = card ?A + card ?B"
    using disj finite_bounded_partitions by (intro card_Un_disjoint) auto
  also have "card ?B = card (bounded_partitions m (d - Suc m))"
    using inj by (rule card_image)
  finally show ?thesis
    using True by (simp add: bounded_partitions_Suc)
qed

lemma coeff_parts_product: "coeff (parts_product m) d = card (bounded_partitions m d)"
proof (induction m arbitrary: d)
  case 0
  then show ?case
    by (simp add: parts_product_0 bounded_partitions_0 coeff_def)
next
  case (Suc m)
  then show ?case
    by (simp only: parts_product_Suc coeff_times card_bounded_partitions_Suc)
qed

lemma distinct_partitions_bounded:
  assumes "a \<le> m"
  shows "distinct_partitions a = bounded_partitions m a"
proof (rule equalityI; rule subsetI)
  fix S assume "S \<in> distinct_partitions a"
  then have S: "finite S" "0 \<notin> S" "\<Sum>S = a" by (simp_all add: distinct_partitions_def)
  have "x \<in> {1..m}" if "x \<in> S" for x
  proof -
    from that S(1) have "\<Sum>S = x + \<Sum>(S - {x})" by (simp add: sum.remove)
    then have "x \<le> \<Sum>S" by simp
    moreover from that S(2) have "x \<noteq> 0" by (metis)
    ultimately show ?thesis using S(3) assms by simp
  qed
  with S(3) show "S \<in> bounded_partitions m a"
    by (auto simp: bounded_partitions_def)
next
  fix S assume "S \<in> bounded_partitions m a"
  then have S: "S \<subseteq> {1..m}" "\<Sum>S = a" by (simp_all add: bounded_partitions_def)
  have "finite S" using S(1) by (rule finite_subset) simp
  moreover have "0 \<notin> S" using S(1) by auto
  ultimately show "S \<in> distinct_partitions a"
    using S(2) by (simp add: distinct_partitions_def)
qed

lemma card_bounded_partitions_pos:
  assumes "d \<le> m"
  shows "0 < card (bounded_partitions m d)"
proof -
  have "(if d = 0 then {} else {d}) \<in> bounded_partitions m d"
    using assms by (auto simp: bounded_partitions_def)
  then show ?thesis
    using finite_bounded_partitions by (metis card_gt_0_iff empty_iff)
qed

lemma filter_nth_prefix:
  assumes "d < length xs" "\<And>i. i \<le> d \<Longrightarrow> Q (xs ! i)"
  shows "d < length (filter Q xs) \<and> filter Q xs ! d = xs ! d"
proof -
  have "filter Q (take (Suc d) xs) = take (Suc d) xs"
  proof (rule filter_True, rule ballI)
    fix x assume "x \<in> set (take (Suc d) xs)"
    then obtain i where "i < Suc d" "i < length xs" "x = xs ! i"
      by (auto simp: in_set_conv_nth)
    with assms(2)[of i] show "Q x" by simp
  qed
  then have "filter Q xs = take (Suc d) xs @ filter Q (drop (Suc d) xs)"
    by (metis append_take_drop_id filter_append)
  then show ?thesis
    using assms(1) by (simp add: nth_append)
qed

lemma partspoly_coeff_eq:
  assumes "d \<le> n"
  shows "partspoly_coeff (partspoly n) d = Inr (card (distinct_partitions d))"
proof -
  let ?p = "parts_product n"
  let ?z = "zip ?p [0..<length ?p]"
  have len: "d < length ?z"
    using assms length_parts_product[of n] by simp
  have nz: "(\<lambda>(c, e). c \<noteq> 0) (?z ! i)" if "i \<le> d" for i
  proof -
    from that assms have i: "i \<le> n" "i < length ?p"
      using length_parts_product[of n] by simp_all
    then have "?p ! i = coeff ?p i" by (simp add: coeff_def)
    also have "\<dots> = card (bounded_partitions n i)" by (rule coeff_parts_product)
    finally show ?thesis
      using card_bounded_partitions_pos[OF i(1)] i(2) by simp
  qed
  from filter_nth_prefix[of d ?z "\<lambda>(c, e). c \<noteq> 0", OF len nz]
  have 1: "d < length (partspoly n)" and 2: "partspoly n ! d = ?z ! d"
    by (simp_all add: partspoly_def coefficients_def)
  have "fst (?z ! d) = coeff ?p d"
    using len by (simp add: coeff_def)
  also have "\<dots> = card (distinct_partitions d)"
    by (simp only: coeff_parts_product distinct_partitions_bounded[OF assms])
  finally show ?thesis
    using 1 2 by (simp add: partspoly_coeff_def)
qed

lemma Compositions_complete:
  "0 \<notin> set alpha \<Longrightarrow> alpha \<in> set (Compositions (sum_list alpha))"
proof (induction alpha)
  case Nil
  then show ?case by simp
next
  case (Cons a alpha)
  then obtain k where k: "a = Suc k" by (cases a) auto
  from Cons have IH: "alpha \<in> set (Compositions (sum_list alpha))" by simp
  have "\<exists>k' alpha'. k' \<le> k + sum_list alpha
          \<and> alpha' \<in> set (Compositions (k + sum_list alpha - k')) \<and> a # alpha = Suc k' # alpha'"
    using IH k by (intro exI[of _ k] exI[of _ alpha]) simp
  then have "a # alpha \<in> set (Compositions (Suc (k + sum_list alpha)))"
    unfolding Compositions_Suc_iff .
  then show ?case by (simp add: k)
qed

lemma set_Compositions: "set (Compositions n) = compositions_of n"
  using Compositions_sound Compositions_complete by (auto simp: compositions_of_def)

lemma distinct_concat_heads:
  assumes "distinct ks" "\<And>k. k \<in> set ks \<Longrightarrow> distinct (f k)"
  shows "distinct (concat (map (\<lambda>k. map (\<lambda>alpha. Suc k # alpha) (f k)) ks))"
  using assms
proof (induction ks)
  case Nil
  then show ?case by simp
next
  case (Cons k ks)
  have 1: "distinct (map (\<lambda>alpha. Suc k # alpha) (f k))"
    using Cons.prems(2)[of k] by (simp add: distinct_map inj_on_def)
  have 2: "distinct (concat (map (\<lambda>k. map (\<lambda>alpha. Suc k # alpha) (f k)) ks))"
    using Cons by simp
  have 3: "set (map (\<lambda>alpha. Suc k # alpha) (f k))
             \<inter> set (concat (map (\<lambda>k. map (\<lambda>alpha. Suc k # alpha) (f k)) ks)) = {}"
    using Cons.prems(1) by auto
  from 1 2 3 show ?case by simp
qed

lemma distinct_Compositions: "distinct (Compositions n)"
proof (induction n rule: less_induct)
  case (less n)
  show ?case
  proof (cases n)
    case 0
    then show ?thesis by simp
  next
    case (Suc m)
    have "distinct (concat (map (\<lambda>k. map (\<lambda>alpha. Suc k # alpha) (Compositions (m - k)))
            [0..<Suc m]))"
    proof (rule distinct_concat_heads)
      show "distinct [0..<Suc m]" by (rule distinct_upt)
    next
      fix k assume "k \<in> set [0..<Suc m]"
      have "m - k < n" using Suc by simp
      then show "distinct (Compositions (m - k))" by (rule less.IH)
    qed
    then show ?thesis
      by (simp only: Suc Compositions.simps)
  qed
qed

lemma cardinality_formula_list:
  "cardinality_formula n
     = (\<Sum>alpha\<leftarrow>Compositions n. \<Prod>a\<leftarrow>alpha. card (distinct_partitions a))"
  unfolding cardinality_formula_def set_Compositions[symmetric]
  using distinct_Compositions by (rule sum_list_distinct_conv_sum_set[symmetric])

lemma composition_part_le:
  assumes "alpha \<in> set (Compositions n)" "a \<in> set alpha"
  shows "a \<le> n"
  using assms Compositions_sound[OF assms(1)] member_le_sum_list by fastforce

lemma cardinality_n_large:
  assumes "5 < n"
  shows "cardinality_n n = Inr (cardinality_formula n)"
proof -
  have inner: "(case map_result (partspoly_coeff (partspoly n)) alpha of
                  Inl e \<Rightarrow> Inl e | Inr cs \<Rightarrow> Inr (prod_list cs))
               = Inr (\<Prod>a\<leftarrow>alpha. card (distinct_partitions a))"
    if "alpha \<in> set (Compositions n)" for alpha
  proof -
    have "map_result (partspoly_coeff (partspoly n)) alpha
            = Inr (map (\<lambda>a. card (distinct_partitions a)) alpha)"
      by (rule map_result_Inr) (simp add: partspoly_coeff_eq composition_part_le[OF that])
    then show ?thesis by simp
  qed
  have "map_result
          (\<lambda>alpha. case map_result (partspoly_coeff (partspoly n)) alpha of
                      Inl e \<Rightarrow> Inl e | Inr cs \<Rightarrow> Inr (prod_list cs))
          (Compositions n)
        = Inr (map (\<lambda>alpha. \<Prod>a\<leftarrow>alpha. card (distinct_partitions a)) (Compositions n))"
    by (rule map_result_Inr) (rule inner)
  then show ?thesis
    using assms by (simp add: cardinality_n_def cardinality_formula_list)
qed

lemma cardinality_formula_exec:
  "cardinality_formula n = (\<Sum>alpha\<leftarrow>Compositions n. \<Prod>a\<leftarrow>alpha. coeff (parts_product n) a)"
proof -
  have "(\<Prod>a\<leftarrow>alpha. card (distinct_partitions a)) = (\<Prod>a\<leftarrow>alpha. coeff (parts_product n) a)"
    if "alpha \<in> set (Compositions n)" for alpha
  proof -
    have "card (distinct_partitions a) = coeff (parts_product n) a" if "a \<in> set alpha" for a
      using composition_part_le[OF \<open>alpha \<in> set (Compositions n)\<close> that]
      by (simp only: coeff_parts_product distinct_partitions_bounded)
    then have "map (\<lambda>a. card (distinct_partitions a)) alpha = map (coeff (parts_product n)) alpha"
      by simp
    then show ?thesis by (rule arg_cong)
  qed
  then have "map (\<lambda>alpha. \<Prod>a\<leftarrow>alpha. card (distinct_partitions a)) (Compositions n)
           = map (\<lambda>alpha. \<Prod>a\<leftarrow>alpha. coeff (parts_product n) a) (Compositions n)"
    by simp
  then show ?thesis
    by (simp only: cardinality_formula_list)
qed

lemma cardinality_formula_small:
  "cardinality_formula 0 = 1" "cardinality_formula 1 = 1" "cardinality_formula 2 = 2"
  "cardinality_formula 3 = 5" "cardinality_formula 4 = 11" "cardinality_formula 5 = 25"
  unfolding cardinality_formula_exec by code_simp+

lemma cardinality_n_small:
  "cardinality_n 0 = Inr 1" "cardinality_n 1 = Inr 1" "cardinality_n 2 = Inr 2"
  "cardinality_n 3 = Inr 5" "cardinality_n 4 = Inr 11" "cardinality_n 5 = Inr 25"
  by (simp_all add: cardinality_n_def orders_def)

text \<open>
  C4. For every nonnegative integer \<open>n\<close>, \<open>cardinality()\<close> of the family of size \<open>n\<close> returns
  the sum, over the compositions \<open>alpha\<close> of \<open>n\<close>, of the product over the parts \<open>a\<close> of
  \<open>alpha\<close> of the number of partitions of \<open>a\<close> into distinct positive parts; for
  \<open>n = 0, ..., 5\<close> this is 1, 1, 2, 5, 11, 25.
\<close>

theorem cardinality_n_formula:
  "cardinality_n n = Inr (cardinality_formula n)
   \<and> cardinality_n 0 = Inr 1 \<and> cardinality_n 1 = Inr 1 \<and> cardinality_n 2 = Inr 2
   \<and> cardinality_n 3 = Inr 5 \<and> cardinality_n 4 = Inr 11 \<and> cardinality_n 5 = Inr 25"
proof -
  have "cardinality_n n = Inr (cardinality_formula n)"
  proof (cases "5 < n")
    case True
    then show ?thesis by (rule cardinality_n_large)
  next
    case False
    then consider "n = 0" | "n = 1" | "n = 2" | "n = 3" | "n = 4" | "n = 5" by linarith
    then show ?thesis
      by cases (simp_all only: cardinality_n_small cardinality_formula_small)
  qed
  with cardinality_n_small show ?thesis by simp
qed

section \<open>Keywords outside the known ones\<close>

lemma rebinds_Nil: "rebinds names [] = False"
  by (simp add: rebinds_def)
















text \<open>A keyword named \<open>cls\<close> is refused, as one named \<open>self\<close> is.\<close>

lemma classcall_private_cls:
  "classcall_private [] (no_known, [(''cls'', 3)]) = Inl TypeError
   \<and> classcall_private [] (no_known, [(''self'', 3)]) = Inl TypeError"
  by (simp add: classcall_private_def standard_keywords_def class_init_def
      rebinds_def parameter_names_def no_known_def)





section \<open>The elements of the minimaj crystal\<close>

lemma crystal_OMPs_342: "crystal_OMPs 3 4 2 = Inr OMPs_342"
  by code_simp

lemma iter_alphabet_342: "iter_alphabet OMPs_342 = Inr (Some family_342)"
  by code_simp

lemma to_element_342: "map_result to_element family_342 = Inr crystal_342"
  by code_simp

lemma module_generators_342: "module_generators 3 4 2 = Inr (Some crystal_342)"
  by (simp add: module_generators_def crystal_OMPs_342 iter_alphabet_342 to_element_342)

lemma crystal_342_closed_f:
  "list_all (\<lambda>b. list_all (\<lambda>i. case crystal_f i b of None \<Rightarrow> True | Some b' \<Rightarrow> b' \<in> set crystal_342) [1, 2]) crystal_342"
  by code_simp

lemma crystal_342_closed_e:
  "list_all (\<lambda>b. list_all (\<lambda>i. case crystal_e i b of None \<Rightarrow> True | Some b' \<Rightarrow> b' \<in> set crystal_342) [1, 2]) crystal_342"
  by code_simp

lemma to_element_docstring:
  "to_element [[2, 3], [3]] = Inr ([3, 2, 3], [0, 1, 3]) \<and>
   to_element [[1, 2, 3], [1, 3]] = Inr ([3, 1, 3, 2, 1], [0, 2, 3, 5])"
  by code_simp

lemma crystal_e_docstring:
  "map (\<lambda>i. map_option (\<lambda>b. to_minimaj_blocks (element_to_tableau b)) (crystal_e i ([3, 2, 3], [0, 1, 3])))
     [1, 2, 3] = [Some (Inr [[1, 3], [3]]), Some (Inr [[2], [2, 3]]), None] \<and>
   map_option (\<lambda>b. to_minimaj_blocks (element_to_tableau b)) (crystal_e 2 ([3, 1, 3, 2, 1], [0, 2, 3, 5])) =
     Some (Inr [[2, 3, 1], [1, 2]])"
  by code_simp

lemma crystal_f_docstring:
  "map (\<lambda>i. map_option (\<lambda>b. to_minimaj_blocks (element_to_tableau b)) (crystal_f i ([3, 2, 3], [0, 1, 3])))
     [1, 2, 3] = [None, None, Some (Inr [[2, 3], [4]])]"
  by code_simp

lemma crystal_342_f:
  assumes "b \<in> set crystal_342" and "1 \<le> i" and "i \<le> 3 - 1" and "crystal_f i b = Some b'"
  shows "b' \<in> set crystal_342"
proof -
  have "i \<in> set [1, 2]" using assms(2,3) by auto
  moreover have "\<forall>i\<in>set [1, 2]. case crystal_f i b of None \<Rightarrow> True | Some b' \<Rightarrow> b' \<in> set crystal_342"
    using crystal_342_closed_f assms(1) unfolding list_all_iff by blast
  ultimately have "case crystal_f i b of None \<Rightarrow> True | Some b' \<Rightarrow> b' \<in> set crystal_342"
    by blast
  then show ?thesis by (simp add: assms(4))
qed

lemma crystal_342_e:
  assumes "b \<in> set crystal_342" and "1 \<le> i" and "i \<le> 3 - 1" and "crystal_e i b = Some b'"
  shows "b' \<in> set crystal_342"
proof -
  have "i \<in> set [1, 2]" using assms(2,3) by auto
  moreover have "\<forall>i\<in>set [1, 2]. case crystal_e i b of None \<Rightarrow> True | Some b' \<Rightarrow> b' \<in> set crystal_342"
    using crystal_342_closed_e assms(1) unfolding list_all_iff by blast
  ultimately have "case crystal_e i b of None \<Rightarrow> True | Some b' \<Rightarrow> b' \<in> set crystal_342"
    by blast
  then show ?thesis by (simp add: assms(4))
qed

lemma distinct_crystal_342: "distinct crystal_342 \<and> length crystal_342 = 15"
  by code_simp

lemma distinct_family_342: "distinct family_342 \<and> length family_342 = 15"
  by code_simp

lemma crystal_342_eq: "crystal 3 4 2 = set crystal_342"
proof (rule equalityI; rule subsetI)
  fix b assume "b \<in> crystal 3 4 2"
  then show "b \<in> set crystal_342"
  proof (induction rule: crystal.induct)
    case (generator gens b)
    then show ?case by (simp add: module_generators_342)
  next
    case (lowered b i b')
    then show ?case by (blast intro: crystal_342_f)
  next
    case (raised b i b')
    then show ?case by (blast intro: crystal_342_e)
  qed
next
  fix b assume "b \<in> set crystal_342"
  then show "b \<in> crystal 3 4 2"
    by (rule crystal.generator [OF module_generators_342])
qed

text \<open>
  C5. The minimaj crystal with \<open>n = 3\<close>, \<open>ell = 4\<close> and \<open>k = 2\<close> has exactly 15 elements:
  its 15 module generators are distinct and closed under the operators. The family of the
  ordered multiset partitions over the alphabet \<open>{1, 2, 3}\<close> of order 4 with 2 blocks, from
  which the generators are made, lists 15 distinct partitions.
\<close>

theorem crystal_342_has_15_elements:
  "card (crystal 3 4 2) = 15 \<and>
   (\<exists>OMPs cos. crystal_OMPs 3 4 2 = Inr OMPs \<and> shape OMPs = Fixed_A_constraints [1, 2, 3] 4 \<and>
      fst (constraints OMPs) = no_known\<lparr>kw_length := Some 2\<rparr> \<and>
      iter_alphabet OMPs = Inr (Some cos) \<and> distinct cos \<and> length cos = card (crystal 3 4 2))"
proof -
  have c: "card (crystal 3 4 2) = 15"
    unfolding crystal_342_eq using distinct_crystal_342 by (simp add: distinct_card)
  show ?thesis
    unfolding c
    apply (rule conjI, rule refl)
    apply (rule exI, rule exI)
    apply (rule conjI, rule crystal_OMPs_342)
    using distinct_family_342 by (simp add: iter_alphabet_342) (simp add: OMPs_342_def)
qed

section \<open>The tableau of a partition and its inverse are inverse to each other\<close>

lemma minimaj_loop_append:
  "minimaj_loop (xs @ ys) C =
     (case minimaj_loop xs C of Inl e \<Rightarrow> Inl e | Inr C' \<Rightarrow> minimaj_loop ys C')"
  by (induction xs arbitrary: C) (simp_all split: sum.splits)

lemma minimaj_blocks_Cons:
  assumes "c \<noteq> []"
  shows "minimaj_blocks (B # c) =
           (case minimaj_blocks c of Inl e \<Rightarrow> Inl e | Inr C \<Rightarrow> minimaj_step B C)"
  using assms by (simp add: minimaj_blocks_def minimaj_loop_append split: sum.splits)

lemma sorted_filter_list: "sorted xs \<Longrightarrow> sorted (filter P xs)"
  by (induction xs) auto

lemma sort_filter_sorted: "sorted B \<Longrightarrow> sort (filter P B) = filter P B"
  by (simp add: sorted_sort_id sorted_filter_list)

lemma minimaj_blocks_rec_props:
  assumes "valid_omp c" and "c \<noteq> []"
  shows "minimaj_blocks_rec c \<noteq> [] \<and> hd (minimaj_blocks_rec c) \<noteq> []
         \<and> map length (minimaj_blocks_rec c) = map length c
         \<and> map set (minimaj_blocks_rec c) = map set c
         \<and> minimaj_ordered (minimaj_blocks_rec c)"
  using assms
proof (induction c rule: minimaj_blocks_rec.induct)
  case 1
  then show ?case by simp
next
  case (2 B)
  then show ?case by (simp add: valid_omp_def valid_block_def)
next
  case (3 B B' rest)
  let ?C = "minimaj_blocks_rec (B' # rest)"
  let ?x = "hd (hd ?C)"
  let ?u = "filter (\<lambda>j. ?x < j) B"
  let ?v = "filter (\<lambda>j. j \<le> ?x) B"
  from 3 have B: "B \<noteq> []" "sorted B" "distinct B" and v: "valid_omp (B' # rest)"
    by (simp_all add: valid_omp_def valid_block_def)
  from 3(1)[OF v] have IH: "?C \<noteq> []" "hd ?C \<noteq> []" "map length ?C = map length (B' # rest)"
    "map set ?C = map set (B' # rest)" "minimaj_ordered ?C" by simp_all
  have len: "length (?u @ ?v) = length B"
  proof -
    have "?v = filter (\<lambda>j. \<not> ?x < j) B" by (rule filter_cong) auto
    then show ?thesis using sum_length_filter_compl[of "\<lambda>j. ?x < j" B] by simp
  qed
  have set: "set (?u @ ?v) = set B" by auto
  have ne: "?u @ ?v \<noteq> []" using len B(1) by (metis length_0_conv)
  have dist: "distinct (?u @ ?v)" using B(3) by auto
  have fu: "filter (\<lambda>a. ?x < a) (?u @ ?v) = ?u"
    by (auto simp add: filter_empty_conv)
  have fv: "filter (\<lambda>a. a \<le> ?x) (?u @ ?v) = ?v"
    by (auto simp add: filter_empty_conv)
  obtain W' rest' where C: "?C = W' # rest'" using IH(1) by (cases ?C) auto
  have mo: "minimaj_ordered ((?u @ ?v) # ?C)"
    unfolding C minimaj_ordered.simps
    using ne dist fu fv B(2) IH(5) C by (simp add: sorted_filter_list del: filter_append)
  show ?case
    using ne len set mo IH by (simp add: Let_def del: minimaj_ordered.simps)
qed

lemma minimaj_blocks_eq_rec:
  assumes "valid_omp c"
  shows "minimaj_blocks c = Inr (minimaj_blocks_rec c)"
  using assms
proof (induction c rule: minimaj_blocks_rec.induct)
  case 1
  then show ?case by (simp add: minimaj_blocks_def)
next
  case (2 B)
  then show ?case
    by (simp add: minimaj_blocks_def valid_omp_def valid_block_def sorted_sort_id)
next
  case (3 B B' rest)
  let ?C = "minimaj_blocks_rec (B' # rest)"
  from 3 have B: "B \<noteq> []" "sorted B" and v: "valid_omp (B' # rest)"
    by (simp_all add: valid_omp_def valid_block_def)
  from minimaj_blocks_rec_props[OF v] have "?C \<noteq> []" "hd ?C \<noteq> []" by simp_all
  then obtain x xs Cs where C: "?C = (x # xs) # Cs"
    by (cases ?C; cases "hd ?C") auto
  have "(\<lambda>j. \<not> j \<le> x) = (\<lambda>j. x < j)" by auto
  then have "minimaj_step B ?C = Inr ((filter (\<lambda>j. x < j) B @ filter (\<lambda>j. j \<le> x) B) # ?C)"
    using B by (simp add: minimaj_step_def C sort_filter_sorted)
  then show ?case
    using 3(1)[OF v] by (simp add: minimaj_blocks_Cons C Let_def)
qed

lemma Set_of_minimaj_blocks_rec:
  assumes "valid_omp c"
  shows "map Set_of (minimaj_blocks_rec c) = c"
proof (cases "c = []")
  case True
  then show ?thesis by simp
next
  case False
  from minimaj_blocks_rec_props[OF assms False]
  have "map set (minimaj_blocks_rec c) = map set c" by simp
  then have "map sorted_list_of_set (map set (minimaj_blocks_rec c))
               = map sorted_list_of_set (map set c)"
    by (rule arg_cong)
  moreover have "Set_of = (\<lambda>xs :: 'a list. sorted_list_of_set (set xs))"
    by (rule ext) (simp add: Set_of_def)
  ultimately have "map Set_of (minimaj_blocks_rec c) = map Set_of c"
    by (simp add: comp_def)
  moreover have "map Set_of c = c"
    using assms by (simp add: valid_omp_def valid_block_def list_all_iff Set_of_valid map_idI)
  ultimately show ?thesis by simp
qed

lemma rows_of_marked_nonempty: "rows_of_marked xs \<noteq> []"
  by (induction xs rule: rows_of_marked.induct) (simp_all add: Let_def)

lemma rows_code_rows_from:
  "map (\<lambda>i. map ((!) w) (filter keep [(d0 # ds @ [length w]) ! i + 1..<(d0 # ds @ [length w]) ! (i + 1) + 1]))
       [0..<length (d0 # ds @ [length w]) - 1]
   = rows_from w keep (d0 + 1) ds"
proof (induction ds arbitrary: d0)
  case Nil
  show ?case by simp
next
  case (Cons d ds)
  have up: "[0..<length (d0 # (d # ds) @ [length w]) - 1]
              = 0 # map Suc [0..<length (d # ds @ [length w]) - 1]"
    by (simp add: upt_conv_Cons map_Suc_upt del: upt_Suc)
  show ?case
    unfolding up using Cons.IH[of d]
    by (simp add: comp_def del: upt_Suc)
qed

lemma rows_from_0:
  assumes "\<not> keep 0"
  shows "rows_from w keep 0 ds = rows_from w keep (0 + 1) ds"
  using assms by (cases ds) (simp_all add: upt_conv_Cons del: upt_Suc)

lemma rows_of_marked_rows_from:
  assumes "\<not> keep (length w)"
  shows "t \<le> length w \<Longrightarrow>
    rows_of_marked (map (\<lambda>j. (w ! j, keep j)) [t..<length w])
      = rows_from w keep t (filter (\<lambda>j. w ! j > w ! (j + 1)) [t..<length w - 1])"
proof (induction "length w - t" arbitrary: t)
  case 0
  then have t: "t = length w" by simp
  show ?case unfolding t using assms by simp
next
  case (Suc m)
  let ?n = "length w"
  let ?desc = "\<lambda>j. w ! j > w ! (j + 1)"
  from Suc have lt: "t < ?n" by simp
  have up: "[t..<?n] = t # [Suc t..<?n]" using lt by (rule upt_conv_Cons)
  have IH: "rows_of_marked (map (\<lambda>j. (w ! j, keep j)) [Suc t..<?n])
              = rows_from w keep (Suc t) (filter ?desc [Suc t..<?n - 1])"
    using Suc(1)[of "Suc t"] Suc(2) lt by simp
  have seg: "\<And>d. t \<le> d \<Longrightarrow>
      map ((!) w) (filter keep [t..<d + 1])
        = (if keep t then [w ! t] else []) @ map ((!) w) (filter keep [Suc t..<d + 1])"
    by (simp add: upt_conv_Cons del: upt_Suc)
  show ?case
  proof (cases "Suc t < ?n")
    case False
    then have e: "[Suc t..<?n] = []" "[t..<?n - 1] = []" "[Suc t..<?n - 1] = []" by simp_all
    show ?thesis
      unfolding up using IH lt seg[of ?n] unfolding e by (simp add: Let_def)
  next
    case True
    have up1: "[t..<?n - 1] = t # [Suc t..<?n - 1]" using True by (simp add: upt_conv_Cons)
    have hd1: "[Suc t..<?n] \<noteq> []" "hd [Suc t..<?n] = Suc t" using True by (simp_all add: upt_conv_Cons)
    show ?thesis
    proof (cases "?desc t")
      case True
      show ?thesis
        unfolding up up1 using IH True hd1 seg[of t]
        by (simp add: Let_def hd_map del: upt_Suc)
    next
      case False
      have mem: "\<And>d. d \<in> set (filter ?desc [Suc t..<?n - 1]) \<Longrightarrow> t \<le> d" by simp
      show ?thesis
      proof (cases "filter ?desc [Suc t..<?n - 1]")
        case Nil
        show ?thesis
          unfolding up up1 using IH False hd1 seg[of ?n] lt Nil
          by (simp add: Let_def hd_map del: upt_Suc)
      next
        case (Cons d ds)
        then have "t \<le> d" using mem by simp
        then show ?thesis
          unfolding up up1 using IH False hd1 seg[of d] Cons
          by (simp add: Let_def hd_map del: upt_Suc)
      qed
    qed
  qed
qed

lemma partial_sum_from_ge: "p \<in> set (partial_sum_from s ls) \<Longrightarrow> s \<le> p"
proof (induction ls arbitrary: s)
  case Nil
  then show ?case by simp
next
  case (Cons a ls)
  from Cons.prems have "p = s \<or> p \<in> set (partial_sum_from (s + a) ls)" by simp
  then show ?case using Cons.IH[of "s + a"] by auto
qed

lemma partial_sum_from_last: "s + sum_list ls \<in> set (partial_sum_from s ls)"
proof (induction ls arbitrary: s)
  case Nil
  show ?case by simp
next
  case (Cons a ls)
  show ?case using Cons.IH[of "s + a"] by (simp add: add.assoc)
qed

lemma marked_nth:
  assumes "W \<noteq> []"
  shows "map (\<lambda>i. (W ! i, i \<noteq> 0)) [0..<length W] = marked W"
proof -
  obtain a W' where W: "W = a # W'" using assms by (cases W) auto
  have "[0..<length W] = 0 # map Suc [0..<length W']"
    unfolding W by (simp add: upt_conv_Cons map_Suc_upt del: upt_Suc)
  moreover have "map (\<lambda>x. (W' ! x, True)) [0..<length W']
                   = map (\<lambda>a. (a, True)) (map ((!) W') [0..<length W'])"
    by (simp add: comp_def del: upt_Suc)
  ultimately show ?thesis
    unfolding W marked_def by (simp add: comp_def map_nth del: upt_Suc)
qed

lemma upt_shift: "[a..<a + n] = map (\<lambda>i. a + i) [0..<n]"
  by (induction n) simp_all

lemma marked_concat:
  assumes "\<forall>W\<in>set bb. W \<noteq> []"
  shows "map (\<lambda>i. (concat bb ! i, s + i \<notin> set (partial_sum_from s (map length bb))))
             [0..<length (concat bb)]
         = concat (map marked bb)"
  using assms
proof (induction bb arbitrary: s)
  case Nil
  show ?case by simp
next
  case (Cons W bb)
  let ?kp = "\<lambda>s bb i. s + i \<notin> set (partial_sum_from s (map length bb))"
  from Cons.prems have W: "W \<noteq> []" and bb: "\<forall>W\<in>set bb. W \<noteq> []" by simp_all
  have split: "[0..<length (concat (W # bb))]
                 = [0..<length W] @ map (\<lambda>i. length W + i) [0..<length (concat bb)]"
  proof -
    have "[0..<length W + length (concat bb)]
            = [0..<length W] @ [length W..<length W + length (concat bb)]"
      by (rule upt_add_eq_append) simp
    then show ?thesis by (simp only: upt_shift concat.simps length_append)
  qed
  have first: "map (\<lambda>i. (concat (W # bb) ! i, ?kp s (W # bb) i)) [0..<length W] = marked W"
  proof -
    have kp: "s + i \<notin> set (partial_sum_from (s + length W) (map length bb))"
      if "i < length W" for i
      using partial_sum_from_ge[of "s + i" "s + length W" "map length bb"] that by auto
    have "map (\<lambda>i. (concat (W # bb) ! i, ?kp s (W # bb) i)) [0..<length W]
                 = map (\<lambda>i. (W ! i, i \<noteq> 0)) [0..<length W]"
      by (rule map_cong[OF refl]) (simp add: kp nth_append)
    then show ?thesis by (simp only: marked_nth[OF W])
  qed
  have second: "map (\<lambda>i. (concat (W # bb) ! i, ?kp s (W # bb) i))
                    (map (\<lambda>i. length W + i) [0..<length (concat bb)])
                = concat (map marked bb)"
  proof -
    have kp: "?kp s (W # bb) (length W + i) = ?kp (s + length W) bb i" for i
      using W by (simp add: add.assoc)
    have "map (\<lambda>i. (concat (W # bb) ! i, ?kp s (W # bb) i))
                   (map (\<lambda>i. length W + i) [0..<length (concat bb)])
               = map (\<lambda>i. (concat bb ! i, ?kp (s + length W) bb i)) [0..<length (concat bb)]"
      unfolding map_map comp_def by (rule map_cong[OF refl]) (simp only: kp, simp)
    then show ?thesis by (simp only: Cons.IH[OF bb, of "s + length W"])
  qed
  show ?case
    unfolding split map_append first second by simp
qed

lemma kept_simps:
  "kept [] = []"
  "kept ((a, k) # xs) = (if k then [a] else []) @ kept xs"
  "kept (xs @ ys) = kept xs @ kept ys"
  "kept (map (\<lambda>a. (a, True)) zs) = zs"
  by (simp_all add: kept_def comp_def filter_map)

lemma kept_marked: "kept (marked W) = tl W"
  by (simp add: marked_def kept_simps)

lemma rows_of_marked_increasing:
  "sorted (map fst xs) \<Longrightarrow> rows_of_marked xs = [kept xs]"
proof (induction xs rule: rows_of_marked.induct)
  case 1
  show ?case by (simp add: kept_simps)
next
  case (2 a keep xs)
  then have IH: "rows_of_marked xs = [kept xs]" by simp
  have "xs \<noteq> [] \<Longrightarrow> \<not> fst (hd xs) < a"
    using 2(2) by (cases xs) auto
  then show ?case
    using IH by (auto simp add: Let_def kept_simps)
qed

lemma rows_of_marked_no_descent:
  assumes "ys \<noteq> []"
  shows "sorted (map fst xs @ [fst (hd ys)]) \<Longrightarrow>
    rows_of_marked (xs @ ys) = (kept xs @ hd (rows_of_marked ys)) # tl (rows_of_marked ys)"
proof (induction xs)
  case Nil
  show ?case using rows_of_marked_nonempty[of ys] by (simp add: kept_simps)
next
  case (Cons p xs)
  obtain a k where p: "p = (a, k)" by (cases p)
  from Cons.prems have s: "sorted (map fst xs @ [fst (hd ys)])" by simp
  have le: "\<not> fst (hd (xs @ ys)) < a"
    using Cons.prems unfolding p by (cases xs) auto
  show ?case
    using Cons.IH[OF s] le assms unfolding p by (simp add: Let_def kept_simps)
qed

lemma rows_of_marked_descent:
  assumes "ys \<noteq> []"
  shows "xs \<noteq> [] \<Longrightarrow> sorted (map fst xs) \<Longrightarrow> fst (hd ys) < fst (last xs) \<Longrightarrow>
    rows_of_marked (xs @ ys) = kept xs # rows_of_marked ys"
proof (induction xs)
  case Nil
  then show ?case by simp
next
  case (Cons p xs)
  obtain a k where p: "p = (a, k)" by (cases p)
  show ?case
  proof (cases "xs = []")
    case True
    then show ?thesis using Cons.prems assms unfolding p by (simp add: Let_def kept_simps)
  next
    case False
    then have IH: "rows_of_marked (xs @ ys) = kept xs # rows_of_marked ys"
      using Cons by simp
    have le: "\<not> fst (hd (xs @ ys)) < a"
      using Cons.prems False unfolding p by (cases xs) auto
    show ?thesis
      using IH le False unfolding p by (simp add: Let_def kept_simps)
  qed
qed

lemma map_fst_marked: "W \<noteq> [] \<Longrightarrow> map fst (marked W) = W"
  by (simp add: marked_def comp_def)

lemma last_marked: "W \<noteq> [] \<Longrightarrow> fst (last (marked W)) = last W"
proof -
  assume W: "W \<noteq> []"
  have "marked W \<noteq> []" by (simp add: marked_def)
  then have "fst (last (marked W)) = last (map fst (marked W))" by (simp add: last_map)
  then show ?thesis using map_fst_marked[OF W] by simp
qed

lemma marked_append: "u \<noteq> [] \<Longrightarrow> marked (u @ v) = marked u @ map (\<lambda>a. (a, True)) v"
  by (simp add: marked_def)

lemma hd_concat_marked:
  "W' \<noteq> [] \<Longrightarrow> concat (map marked (W' # rest)) \<noteq> []
     \<and> fst (hd (concat (map marked (W' # rest)))) = hd W'"
  by (simp add: marked_def)

lemma minimaj_ordered_hd: "minimaj_ordered bb \<Longrightarrow> bb \<noteq> [] \<and> hd bb \<noteq> []"
  by (induction bb rule: minimaj_ordered.induct) simp_all

lemma minimaj_ordered_upper:
  assumes "W \<noteq> []" and "W = filter (\<lambda>a. x < a) W @ filter (\<lambda>a. a \<le> x) W"
  shows "x < hd W \<longleftrightarrow> filter (\<lambda>a. x < a) W \<noteq> []"
proof
  assume "x < hd W"
  moreover have "hd W \<in> set W" using assms(1) by simp
  ultimately show "filter (\<lambda>a. x < a) W \<noteq> []"
    by (auto simp add: filter_empty_conv)
next
  assume ne: "filter (\<lambda>a. x < a) W \<noteq> []"
  then have "hd W = hd (filter (\<lambda>a. x < a) W)"
    using assms(2) by (metis hd_append2)
  moreover have "hd (filter (\<lambda>a. x < a) W) \<in> set (filter (\<lambda>a. x < a) W)"
    using ne by (rule hd_in_set)
  ultimately show "x < hd W" by simp
qed

lemma rows_of_marked_tableau_rows:
  "minimaj_ordered bb \<Longrightarrow> rows_of_marked (concat (map marked bb)) = tableau_rows bb"
proof (induction bb rule: tableau_rows.induct)
  case 1
  then show ?case by simp
next
  case (2 W)
  then have W: "W \<noteq> []" "sorted W" by simp_all
  have "rows_of_marked (marked W) = [kept (marked W)]"
    by (rule rows_of_marked_increasing) (simp add: map_fst_marked W)
  then show ?case by (simp add: kept_marked)
next
  case (3 W W' rest)
  let ?x = "hd W'"
  let ?u = "filter (\<lambda>a. ?x < a) W"
  let ?v = "filter (\<lambda>a. a \<le> ?x) W"
  let ?Y = "concat (map marked (W' # rest))"
  let ?ps = "tableau_rows (W' # rest)"
  from 3(2) have W: "W \<noteq> []" and uv: "W = ?u @ ?v" and su: "sorted ?u" and sv: "sorted ?v"
    and mo: "minimaj_ordered (W' # rest)"
    by simp_all
  from minimaj_ordered_hd[OF mo] have W': "W' \<noteq> []" by simp
  from hd_concat_marked[OF W'] have Y: "?Y \<noteq> []" "fst (hd ?Y) = ?x" by simp_all
  from 3(1)[OF mo] have IH: "rows_of_marked ?Y = ?ps" .
  have svx: "sorted (?v @ [?x])"
    using sv by (simp add: sorted_append)
  have low: "rows_of_marked (map (\<lambda>a. (a, True)) ?v @ ?Y) = (?v @ hd ?ps) # tl ?ps"
    using rows_of_marked_no_descent[OF Y(1), of "map (\<lambda>a. (a, True)) ?v"] svx Y(2) IH
    by (simp add: comp_def kept_simps)
  have cat: "concat (map marked (W # W' # rest)) = marked W @ ?Y" by simp
  show ?case
  proof (cases "?x < hd W")
    case True
    then have une: "?u \<noteq> []" using minimaj_ordered_upper[OF W uv] by simp
    have m: "marked W = marked ?u @ map (\<lambda>a. (a, True)) ?v"
      using marked_append[OF une, of ?v] uv by simp
    have "last ?u \<in> set ?u" using une by (rule last_in_set)
    then have lastu: "?x < last ?u" by simp
    have "fst (hd (map (\<lambda>a. (a, True)) ?v @ ?Y)) \<le> ?x"
    proof (cases "?v = []")
      case True
      then show ?thesis using Y(2) by simp
    next
      case False
      then have "hd ?v \<in> set ?v" by (rule hd_in_set)
      then have "hd ?v \<le> ?x" by simp
      then show ?thesis using False by (simp add: hd_map)
    qed
    then have lt: "fst (hd (map (\<lambda>a. (a, True)) ?v @ ?Y)) < fst (last (marked ?u))"
      using lastu last_marked[OF une] by simp
    have ne: "map (\<lambda>a. (a, True)) ?v @ ?Y \<noteq> []" using Y(1) by simp
    have "rows_of_marked (marked ?u @ (map (\<lambda>a. (a, True)) ?v @ ?Y))
            = kept (marked ?u) # rows_of_marked (map (\<lambda>a. (a, True)) ?v @ ?Y)"
    proof (rule rows_of_marked_descent[OF ne _ _ lt])
      show "marked ?u \<noteq> []" by (simp add: marked_def)
      show "sorted (map fst (marked ?u))" using su by (simp only: map_fst_marked[OF une])
    qed
    then have "rows_of_marked (marked W @ ?Y) = tl ?u # (?v @ hd ?ps) # tl ?ps"
      unfolding low kept_marked by (subst m) simp
    then show ?thesis
      unfolding cat using True by (simp add: Let_def)
  next
    case False
    then have u: "?u = []" using minimaj_ordered_upper[OF W uv] by simp
    then have Wv: "W = ?v" using uv by simp
    have "sorted (W @ [?x])" using svx Wv by simp
    then have "rows_of_marked (marked W @ ?Y) = (kept (marked W) @ hd ?ps) # tl ?ps"
      using rows_of_marked_no_descent[OF Y(1), of "marked W"] Y(2) IH map_fst_marked[OF W]
      by simp
    then show ?thesis
      unfolding cat using False by (simp add: Let_def kept_marked)
  qed
qed

lemma partial_sum_from_first: "s \<in> set (partial_sum_from s ls)"
  by (cases ls) simp_all

lemma minimaj_blocks_rec_nonempty:
  assumes "valid_omp c" and "c \<noteq> []"
  shows "\<forall>W\<in>set (minimaj_blocks_rec c). W \<noteq> []"
proof
  fix W assume "W \<in> set (minimaj_blocks_rec c)"
  then have "length W \<in> set (map length (minimaj_blocks_rec c))" by simp
  then have "length W \<in> set (map length c)"
    using minimaj_blocks_rec_props[OF assms] by simp
  then obtain B where "B \<in> set c" "length W = length B" by auto
  moreover have "B \<noteq> []" if "B \<in> set c" for B
    using assms(1) that by (simp add: valid_omp_def valid_block_def list_all_iff)
  ultimately show "W \<noteq> []" by auto
qed

lemma descents_bound: "d \<in> set (descents w) \<Longrightarrow> d < length w - 1"
  by (simp add: descents_def)

lemma to_tableau_rows:
  assumes "valid_omp c" and "c \<noteq> []"
  shows "to_tableau c =
           Inr (rev (map rev (tableau_rows (minimaj_blocks_rec c)))
                @ [map hd (minimaj_blocks_rec c)])"
proof -
  let ?bb = "minimaj_blocks_rec c"
  let ?w = "concat ?bb"
  let ?beginning = "partial_sum (map length c)"
  define keep where "keep = (\<lambda>j. j \<notin> set ?beginning)"
  let ?D = "0 # descents ?w @ [length ?w]"
  note props = minimaj_blocks_rec_props[OF assms]
  note ne = minimaj_blocks_rec_nonempty[OF assms]
  have mb: "minimaj_blocks c = Inr ?bb" by (rule minimaj_blocks_eq_rec[OF assms(1)])
  have heads: "map_result (\<lambda>block. item block 0) ?bb = Inr (map hd ?bb)"
  proof (rule map_result_Inr)
    fix x assume "x \<in> set ?bb"
    then have "x \<noteq> []" using ne by simp
    then show "item x 0 = Inr (hd x)" by (simp add: item_def hd_conv_nth)
  qed
  have beg: "?beginning = partial_sum_from 0 (map length ?bb)"
    using props by (simp add: partial_sum_def)
  have len: "sum_list (map length ?bb) = length ?w" by (simp add: length_concat)
  have keep_end: "\<not> keep (length ?w)"
    using partial_sum_from_last[of 0 "map length ?bb"] unfolding keep_def beg len by simp
  have keep_0: "\<not> keep 0"
    using partial_sum_from_first[of 0 "map length ?bb"] unfolding keep_def beg by simp
  have Dle: "d \<le> length ?w" if "d \<in> set ?D" for d
    using that descents_bound[of d ?w] by auto
  have rows: "map_result
                (\<lambda>i. map_result (item ?w) (filter keep [?D ! i + 1..<?D ! (i + 1) + 1]))
                [0..<length ?D - 1]
              = Inr (map (\<lambda>i. map ((!) ?w) (filter keep [?D ! i + 1..<?D ! (i + 1) + 1]))
                       [0..<length ?D - 1])"
  proof (rule map_result_Inr)
    fix i assume "i \<in> set [0..<length ?D - 1]"
    then have "i + 1 < length ?D" by auto
    then have "?D ! (i + 1) \<in> set ?D" by (rule nth_mem)
    then have le: "?D ! (i + 1) \<le> length ?w" by (rule Dle)
    define lo where "lo = ?D ! i"
    define hi where "hi = ?D ! (i + 1)"
    have "map_result (item ?w) (filter keep [lo + 1..<hi + 1])
            = Inr (map ((!) ?w) (filter keep [lo + 1..<hi + 1]))"
    proof (rule map_result_Inr)
      fix j assume "j \<in> set (filter keep [lo + 1..<hi + 1])"
      then have "j < hi + 1" "keep j" unfolding set_filter set_upt by simp_all
      then have "j \<le> length ?w" "j \<noteq> length ?w" using le keep_end unfolding hi_def by auto
      then show "item ?w j = Inr (?w ! j)" by (simp add: item_def)
    qed
    then show "map_result (item ?w) (filter keep [?D ! i + 1..<?D ! (i + 1) + 1])
            = Inr (map ((!) ?w) (filter keep [?D ! i + 1..<?D ! (i + 1) + 1]))"
      unfolding lo_def hi_def .
  qed
  have "map (\<lambda>i. map ((!) ?w) (filter keep [?D ! i + 1..<?D ! (i + 1) + 1]))
            [0..<length ?D - 1]
        = rows_from ?w keep (0 + 1) (descents ?w)"
    by (rule rows_code_rows_from)
  also have "\<dots> = rows_from ?w keep 0 (descents ?w)"
    by (rule rows_from_0[where keep=keep, OF keep_0, symmetric])
  also have "\<dots> = rows_of_marked (map (\<lambda>j. (?w ! j, keep j)) [0..<length ?w])"
    using rows_of_marked_rows_from[where keep=keep and w="?w" and t=0, OF keep_end] by (simp add: descents_def)
  also have "map (\<lambda>j. (?w ! j, keep j)) [0..<length ?w] = concat (map marked ?bb)"
    using marked_concat[OF ne, of 0] unfolding keep_def beg by simp
  also have "rows_of_marked (concat (map marked ?bb)) = tableau_rows ?bb"
    using props by (simp add: rows_of_marked_tableau_rows)
  finally have eq: "map (\<lambda>i. map ((!) ?w) (filter keep [?D ! i + 1..<?D ! (i + 1) + 1]))
            [0..<length ?D - 1] = tableau_rows ?bb" .
  show ?thesis
    unfolding to_tableau_def mb using assms(2) heads rows eq
    by (simp add: Let_def concatenate_eq keep_def del: upt_Suc)
qed

lemma picked_Nil: "picked b t [] = []"
  by (simp add: picked_def)

lemma picked_Cons:
  "picked b t (((lo, hi), row) # Z) =
     (if lo \<le> t \<and> t \<le> hi then filter (admits b lo hi t) row else []) @ picked b t Z"
  by (simp add: picked_def)

lemma picked_later: "(\<forall>z\<in>set Z. t < fst (fst z)) \<Longrightarrow> picked b t Z = []"
  by (induction Z) (auto simp add: picked_Nil picked_Cons)

lemma extend_block_run:
  assumes len: "length mu = k"
    and heads: "\<forall>t<k. mu ! t \<noteq> [] \<and> hd (mu ! t) = b ! t"
    and hi: "hi < k"
  shows "m \<le> hi + 1 \<Longrightarrow>
    foldl (extend_block row lo hi) mu [lo..<m]
      = map (\<lambda>t. mu ! t @ (if lo \<le> t \<and> t < m then filter (admits b lo hi t) row else [])) [0..<k]"
proof (induction m)
  case 0
  have "map (\<lambda>t. mu ! t) [0..<k] = mu" using map_nth[of mu] len by simp
  then show ?case by simp
next
  case (Suc m)
  let ?S = "map (\<lambda>t. mu ! t @ (if lo \<le> t \<and> t < m then filter (admits b lo hi t) row else [])) [0..<k]"
  let ?R = "map (\<lambda>t. mu ! t @ (if lo \<le> t \<and> t < Suc m then filter (admits b lo hi t) row else [])) [0..<k]"
  from Suc have IH: "foldl (extend_block row lo hi) mu [lo..<m] = ?S" by simp
  show ?case
  proof (cases "lo \<le> m")
    case False
    have e1: "[lo..<Suc m] = []" using False by simp
    have e2: "[lo..<m] = []" using False by simp
    have RS: "?R = ?S"
      by (rule map_cong[OF refl]) (use False in auto)
    have "foldl (extend_block row lo hi) mu [lo..<Suc m]
            = foldl (extend_block row lo hi) mu [lo..<m]"
      unfolding e1 e2 ..
    then show ?thesis unfolding RS IH .
  next
    case True
    from Suc.prems hi have mk: "m < k" "m \<le> hi" by simp_all
    have up: "[lo..<Suc m] = [lo..<m] @ [m]" using True by simp
    have Sm: "?S ! m = mu ! m" using mk by simp
    have hdm: "hd (mu ! m) = b ! m" using heads mk by simp
    have hdn: "hd (?S ! (m + 1)) = b ! (m + 1)" if "m \<noteq> hi"
    proof -
      from that mk hi have "m + 1 < k" by simp
      then show ?thesis using heads by simp
    qed
    have pred: "filter (\<lambda>i. (hd (mu ! m) < i \<or> m = lo) \<and> (m = hi \<or> i \<le> hd (?S ! (m + 1)))) row
                  = filter (admits b lo hi m) row"
    proof (cases "m = hi")
      case True
      show ?thesis
        unfolding hdm by (rule filter_cong[OF refl]) (simp add: admits_def True)
    next
      case False
      show ?thesis
        unfolding hdn[OF False] hdm
        by (rule filter_cong[OF refl]) (simp add: admits_def False)
    qed
    have "foldl (extend_block row lo hi) mu [lo..<Suc m] = extend_block row lo hi ?S m"
      unfolding up using IH by simp
    also have "\<dots> = ?S[m := mu ! m @ filter (admits b lo hi m) row]"
      unfolding extend_block_def Sm pred ..
    also have "\<dots> = ?R"
    proof (rule nth_equalityI)
      show "length (?S[m := mu ! m @ filter (admits b lo hi m) row]) = length ?R" by simp
    next
      fix t assume "t < length (?S[m := mu ! m @ filter (admits b lo hi m) row])"
      then have t: "t < k" by simp
      show "?S[m := mu ! m @ filter (admits b lo hi m) row] ! t = ?R ! t"
        using t True by (cases "t = m") (auto simp add: nth_list_update)
    qed
    finally show ?thesis .
  qed
qed

lemma extend_block_runs:
  "(\<forall>z\<in>set Z. snd (fst z) < k) \<Longrightarrow> length mu = k \<Longrightarrow>
   (\<forall>t<k. mu ! t \<noteq> [] \<and> hd (mu ! t) = b ! t) \<Longrightarrow>
   foldl (\<lambda>mu ((lo, hi), row). foldl (extend_block row lo hi) mu [lo..<hi + 1]) mu Z
     = map (\<lambda>t. mu ! t @ picked b t Z) [0..<k]"
proof (induction Z arbitrary: mu)
  case Nil
  then show ?case using map_nth[of mu] by (simp add: picked_Nil)
next
  case (Cons z Z)
  obtain lo hi row where z: "z = ((lo, hi), row)" by (cases z) auto
  let ?step = "\<lambda>t. if lo \<le> t \<and> t \<le> hi then filter (admits b lo hi t) row else []"
  let ?mu = "map (\<lambda>t. mu ! t @ ?step t) [0..<k]"
  from Cons.prems(1) have hi: "hi < k" and Z: "\<forall>z\<in>set Z. snd (fst z) < k"
    by (simp_all add: z)
  have "foldl (extend_block row lo hi) mu [lo..<hi + 1]
          = map (\<lambda>t. mu ! t @ (if lo \<le> t \<and> t < hi + 1 then filter (admits b lo hi t) row else [])) [0..<k]"
    by (rule extend_block_run[OF Cons.prems(2,3) hi]) simp
  also have "\<dots> = ?mu"
    by (rule map_cong[OF refl]) auto
  finally have run: "foldl (extend_block row lo hi) mu [lo..<hi + 1] = ?mu" .
  have len: "length ?mu = k" by simp
  have heads: "\<forall>t<k. ?mu ! t \<noteq> [] \<and> hd (?mu ! t) = b ! t"
    using Cons.prems(3) by simp
  have "foldl (\<lambda>mu ((lo, hi), row). foldl (extend_block row lo hi) mu [lo..<hi + 1]) mu (z # Z)
          = foldl (\<lambda>mu ((lo, hi), row). foldl (extend_block row lo hi) mu [lo..<hi + 1]) ?mu Z"
    unfolding z using run by simp
  also have "\<dots> = map (\<lambda>t. ?mu ! t @ picked b t Z) [0..<k]"
    by (rule Cons.IH[OF Z len heads])
  also have "\<dots> = map (\<lambda>t. mu ! t @ picked b t (z # Z)) [0..<k]"
    by (rule map_cong[OF refl]) (simp add: z picked_Cons)
  finally show ?case .
qed

lemma map_nth_zip3:
  assumes "length xs = n" and "length ys = n" and "n \<le> length zs"
  shows "map (\<lambda>f. ((xs ! f, ys ! f), zs ! f)) [0..<n] = zip (zip xs ys) zs"
  using assms by (intro nth_equalityI) simp_all

lemma runs_from_breaks:
  assumes "b = pre @ suf" and "suf \<noteq> []" and "j = length pre"
  shows "runs_from suf lo j
           = zip (lo # filter (\<lambda>t. b ! (t + 1) < b ! t) [j..<length b - 1])
                 (filter (\<lambda>t. b ! (t + 1) < b ! t) [j..<length b - 1] @ [length b - 1])"
  using assms
proof (induction suf lo j arbitrary: pre rule: runs_from.induct)
  case (1 lo j)
  then show ?case by simp
next
  case (2 x lo j)
  then have "length b - 1 = j" by simp
  then show ?case by simp
next
  case (3 x y bs lo j)
  let ?desc = "\<lambda>t. b ! (t + 1) < b ! t"
  from 3(3-5) have b: "b = (pre @ [x]) @ (y # bs)" "j + 1 = length (pre @ [x])" by simp_all
  from 3(3,5) have bj: "b ! j = x" "b ! (j + 1) = y" by (simp_all add: nth_append)
  from 3(3,5) have lt: "j < length b - 1" by simp
  have up: "[j..<length b - 1] = j # [j + 1..<length b - 1]"
    using lt by (simp add: upt_conv_Cons)
  show ?case
  proof (cases "y < x")
    case True
    have "runs_from (y # bs) j (j + 1)
            = zip (j # filter ?desc [j + 1..<length b - 1])
                  (filter ?desc [j + 1..<length b - 1] @ [length b - 1])"
      by (rule 3(1)[OF True b(1) _ b(2)]) simp
    then show ?thesis unfolding up using True bj by simp
  next
    case False
    have "runs_from (y # bs) lo (j + 1)
            = zip (lo # filter ?desc [j + 1..<length b - 1])
                  (filter ?desc [j + 1..<length b - 1] @ [length b - 1])"
      by (rule 3(2)[OF False b(1) _ b(2)]) simp
    then show ?thesis unfolding up using False bj by simp
  qed
qed

lemma runs_from_shape:
  "suf \<noteq> [] \<Longrightarrow>
     \<exists>h rest. runs_from suf lo j = (lo, h) # rest \<and> j \<le> h \<and> (\<forall>r\<in>set rest. h \<le> fst r)"
proof (induction suf lo j rule: runs_from.induct)
  case (1 lo j)
  then show ?case by simp
next
  case (2 x lo j)
  show ?case by simp
next
  case (3 x y bs lo j)
  show ?case
  proof (cases "y < x")
    case True
    from 3(1)[OF True] obtain h rest where
      r: "runs_from (y # bs) j (j + 1) = (j, h) # rest" "j + 1 \<le> h" "\<forall>r\<in>set rest. h \<le> fst r"
      by auto
    show ?thesis using True r by auto
  next
    case False
    from 3(2)[OF False] obtain h rest where
      r: "runs_from (y # bs) lo (j + 1) = (lo, h) # rest" "j + 1 \<le> h" "\<forall>r\<in>set rest. h \<le> fst r"
      by auto
    show ?thesis using False r by auto
  qed
qed

lemma picked_rest:
  assumes "\<forall>r\<in>set rest. h \<le> fst r" and "t < h"
  shows "picked b t (zip rest rows) = []"
proof (rule picked_later)
  show "\<forall>z\<in>set (zip rest rows). t < fst (fst z)"
  proof
    fix z assume "z \<in> set (zip rest rows)"
    then have "fst z \<in> set rest" by (metis prod.collapse set_zip_leftD)
    then show "t < fst (fst z)" using assms by auto
  qed
qed

lemma blocks_of_rows_picked:
  assumes "b = pre @ suf" and "suf \<noteq> []" and "j = length pre" and "lo \<le> j"
    and "length (runs_from suf lo j) \<le> length (p # ps)"
  shows "map (\<lambda>t. [b ! t] @ picked b t (zip (runs_from suf lo j) (p # ps))) [j..<length b]
           = blocks_of_rows (lo = j) suf p ps"
  using assms
proof (induction suf lo j arbitrary: pre p ps rule: runs_from.induct)
  case (1 lo j)
  then show ?case by simp
next
  case (2 x lo j)
  then have "[j..<length b] = [j]" "b ! j = x" by (simp_all add: upt_conv_Cons)
  then show ?case
    using 2(4) by (auto simp add: picked_Cons picked_Nil admits_def intro: filter_cong)
next
  case (3 x y bs lo j)
  from 3(3-5) have b: "b = (pre @ [x]) @ (y # bs)" "j + 1 = length (pre @ [x])" by simp_all
  from 3(3,5) have bj: "b ! j = x" "b ! (j + 1) = y" "b ! Suc j = y"
    by (simp_all add: nth_append)
  from 3(3,5) have lt: "j < length b" by simp
  have up: "[j..<length b] = j # [j + 1..<length b]"
    using lt by (simp add: upt_conv_Cons)
  show ?case
  proof (cases "y < x")
    case True
    from runs_from_shape[of "y # bs" j "j + 1"] obtain h rest where
      r: "runs_from (y # bs) j (j + 1) = (j, h) # rest" "j + 1 \<le> h" "\<forall>r\<in>set rest. h \<le> fst r"
      by auto
    from 3(7) True r(1) obtain p' ps' where ps: "ps = p' # ps'" by (cases ps) auto
    have len: "length (runs_from (y # bs) j (j + 1)) \<le> length (p' # ps')"
      using 3(7) True ps by simp
    have IH: "map (\<lambda>t. [b ! t] @ picked b t (zip (runs_from (y # bs) j (j + 1)) (p' # ps')))
                  [j + 1..<length b]
              = blocks_of_rows False (y # bs) p' ps'"
      using 3(1)[OF True b(1) _ b(2) _ len] by simp
    have first: "picked b j (zip (runs_from (x # y # bs) lo j) (p # ps))
                   = filter (\<lambda>i. x < i \<or> lo = j) p @ filter (\<lambda>i. i \<le> y) p'"
    proof -
      have "picked b j (zip rest ps') = []"
        by (rule picked_rest[OF r(3)]) (use r(2) in simp)
      moreover have "filter (admits b lo j j) p = filter (\<lambda>i. x < i \<or> lo = j) p"
        by (rule filter_cong[OF refl]) (auto simp add: admits_def bj)
      moreover have "filter (admits b j h j) p' = filter (\<lambda>i. i \<le> y) p'"
        by (rule filter_cong[OF refl]) (use r(2) in \<open>auto simp add: admits_def bj\<close>)
      ultimately show ?thesis
        using True r(1,2) 3(6) ps by (simp add: picked_Cons)
    qed
    have later: "map (\<lambda>t. [b ! t] @ picked b t (zip (runs_from (x # y # bs) lo j) (p # ps)))
                     [j + 1..<length b]
                 = map (\<lambda>t. [b ! t] @ picked b t (zip (runs_from (y # bs) j (j + 1)) (p' # ps')))
                     [j + 1..<length b]"
      by (rule map_cong[OF refl]) (use True ps in \<open>simp add: picked_Cons\<close>)
    have "map (\<lambda>t. [b ! t] @ picked b t (zip (runs_from (x # y # bs) lo j) (p # ps))) [j..<length b]
            = ([x] @ filter (\<lambda>i. x < i \<or> lo = j) p @ filter (\<lambda>i. i \<le> y) p')
                # blocks_of_rows False (y # bs) p' ps'"
      unfolding up list.map first later IH bj ..
    then show ?thesis
      using True ps by simp
  next
    case False
    from runs_from_shape[of "y # bs" lo "j + 1"] obtain h rest where
      r: "runs_from (y # bs) lo (j + 1) = (lo, h) # rest" "j + 1 \<le> h" "\<forall>r\<in>set rest. h \<le> fst r"
      by auto
    have len: "length (runs_from (y # bs) lo (j + 1)) \<le> length (p # ps)"
      using 3(7) False by simp
    have IH: "map (\<lambda>t. [b ! t] @ picked b t (zip (runs_from (y # bs) lo (j + 1)) (p # ps)))
                  [j + 1..<length b]
              = blocks_of_rows False (y # bs) p ps"
      using 3(2)[OF False b(1) _ b(2) _ len] 3(6) by simp
    have first: "picked b j (zip (runs_from (x # y # bs) lo j) (p # ps))
                   = filter (\<lambda>i. (x < i \<or> lo = j) \<and> i \<le> y) p"
    proof -
      have "picked b j (zip rest ps) = []"
        by (rule picked_rest[OF r(3)]) (use r(2) in simp)
      moreover have "filter (admits b lo h j) p = filter (\<lambda>i. (x < i \<or> lo = j) \<and> i \<le> y) p"
        by (rule filter_cong[OF refl]) (use r(2) in \<open>auto simp add: admits_def bj\<close>)
      ultimately show ?thesis
        using False r(1,2) 3(6) by (simp add: picked_Cons)
    qed
    have later: "map (\<lambda>t. [b ! t] @ picked b t (zip (runs_from (x # y # bs) lo j) (p # ps)))
                     [j + 1..<length b]
                 = map (\<lambda>t. [b ! t] @ picked b t (zip (runs_from (y # bs) lo (j + 1)) (p # ps)))
                     [j + 1..<length b]"
      using False by simp
    have "map (\<lambda>t. [b ! t] @ picked b t (zip (runs_from (x # y # bs) lo j) (p # ps))) [j..<length b]
            = ([x] @ filter (\<lambda>i. (x < i \<or> lo = j) \<and> i \<le> y) p)
                # blocks_of_rows False (y # bs) p ps"
      unfolding up list.map first later IH bj ..
    then show ?thesis
      using False by simp
  qed
qed

lemma strict_tl: "sorted xs \<Longrightarrow> distinct xs \<Longrightarrow> \<forall>i\<in>set (tl xs). hd xs < i"
  by (cases xs) (auto simp add: less_le)

lemma tableau_rows_nonempty: "tableau_rows bb \<noteq> []"
  by (induction bb rule: tableau_rows.induct) (simp_all add: Let_def)

lemma length_tableau_rows:
  "bb \<noteq> [] \<Longrightarrow> length (tableau_rows bb) = length (runs_from (map hd bb) lo j)"
proof (induction bb arbitrary: lo j rule: tableau_rows.induct)
  case 1
  then show ?case by simp
next
  case (2 W)
  show ?case by simp
next
  case (3 W W' rest)
  have ne: "tableau_rows (W' # rest) \<noteq> []" by (rule tableau_rows_nonempty)
  then have l: "Suc (length (tl (tableau_rows (W' # rest)))) = length (tableau_rows (W' # rest))"
    by (cases "tableau_rows (W' # rest)") simp_all
  show ?case
    using 3(1)[of j "j + 1"] 3(1)[of lo "j + 1"] l by (simp add: Let_def)
qed

lemma minimaj_ordered_first:
  assumes "minimaj_ordered (W # W' # rest)"
  shows "W \<noteq> []" and "minimaj_ordered (W' # rest)" and "W' \<noteq> []"
    and "hd W' < hd W \<Longrightarrow>
           filter (\<lambda>a. hd W' < a) W \<noteq> [] \<and> hd (filter (\<lambda>a. hd W' < a) W) = hd W
           \<and> W = hd W # tl (filter (\<lambda>a. hd W' < a) W) @ filter (\<lambda>a. a \<le> hd W') W
           \<and> (\<forall>i\<in>set (tl (filter (\<lambda>a. hd W' < a) W)). hd W < i)"
    and "\<not> hd W' < hd W \<Longrightarrow>
           (\<forall>i\<in>set (tl W). hd W < i \<and> i \<le> hd W') \<and> hd W \<le> hd W'"
proof -
  let ?x = "hd W'"
  let ?u = "filter (\<lambda>a. ?x < a) W"
  let ?v = "filter (\<lambda>a. a \<le> ?x) W"
  from assms show W: "W \<noteq> []" and mo: "minimaj_ordered (W' # rest)" by simp_all
  from minimaj_ordered_hd[OF mo] show "W' \<noteq> []" by simp
  from assms have uv: "W = ?u @ ?v" and su: "sorted ?u" and sv: "sorted ?v" and d: "distinct W"
    by simp_all
  {
    assume "?x < hd W"
    then have une: "?u \<noteq> []" using minimaj_ordered_upper[OF W uv] by simp
    then have h: "hd ?u = hd W" using uv by (metis hd_append2)
    have "?u = hd ?u # tl ?u" using une by simp
    then have "W = hd W # tl ?u @ ?v" using uv h by (metis append_Cons)
    moreover have "\<forall>i\<in>set (tl ?u). hd ?u < i"
      by (rule strict_tl[OF su]) (use d in simp)
    ultimately show "?u \<noteq> [] \<and> hd ?u = hd W \<and> W = hd W # tl ?u @ ?v
           \<and> (\<forall>i\<in>set (tl ?u). hd W < i)"
      using une h by simp
  }
  {
    assume "\<not> ?x < hd W"
    then have "?u = []" using minimaj_ordered_upper[OF W uv] by simp
    then have Wv: "W = ?v" using uv by simp
    then have "sorted W" using sv by simp
    then have "\<forall>i\<in>set (tl W). hd W < i" using d by (rule strict_tl)
    moreover have "\<forall>i\<in>set W. i \<le> ?x" by (subst Wv) simp
    moreover have "hd W \<in> set W" "set (tl W) \<subseteq> set W" using W by (simp_all add: list.set_sel(2) subsetI)
    ultimately show "(\<forall>i\<in>set (tl W). hd W < i \<and> i \<le> ?x) \<and> hd W \<le> ?x"
      by blast
  }
qed

lemma tableau_rows_above:
  "minimaj_ordered bb \<Longrightarrow> \<forall>i\<in>set (hd (tableau_rows bb)). hd (hd bb) < i"
proof (induction bb rule: tableau_rows.induct)
  case 1
  then show ?case by simp
next
  case (2 W)
  then show ?case using strict_tl[of W] by simp
next
  case (3 W W' rest)
  note f = minimaj_ordered_first[OF 3(2)]
  from 3(1)[OF f(2)] have IH: "\<forall>i\<in>set (hd (tableau_rows (W' # rest))). hd W' < i" by simp
  show ?case
  proof (cases "hd W' < hd W")
    case True
    then show ?thesis using f(4) by (simp add: Let_def)
  next
    case False
    then show ?thesis using f(5) IH by (auto simp add: Let_def)
  qed
qed

lemma filter_all: "(\<forall>i\<in>set xs. P i) \<Longrightarrow> filter P xs = xs"
  by (induction xs) simp_all

lemma filter_none: "(\<forall>i\<in>set xs. \<not> P i) \<Longrightarrow> filter P xs = []"
  by (induction xs) simp_all

lemma blocks_of_rows_tableau_rows:
  "minimaj_ordered bb \<Longrightarrow> (\<forall>i\<in>set q. i \<le> hd (hd bb)) \<Longrightarrow> (e \<longrightarrow> q = []) \<Longrightarrow>
     blocks_of_rows e (map hd bb) (q @ hd (tableau_rows bb)) (tl (tableau_rows bb)) = bb"
proof (induction bb arbitrary: q e rule: tableau_rows.induct)
  case 1
  then show ?case by simp
next
  case (2 W)
  then have W: "W \<noteq> []" and tl: "\<forall>i\<in>set (tl W). hd W < i"
    using strict_tl[of W] by simp_all
  have "filter (\<lambda>i. hd W < i \<or> e) q = []"
    by (rule filter_none) (use 2(2,3) in auto)
  moreover have "filter (\<lambda>i. hd W < i \<or> e) (tl W) = tl W"
    by (rule filter_all) (use tl in auto)
  ultimately show ?case using W by simp
next
  case (3 W W' rest)
  let ?x = "hd W'"
  let ?u = "filter (\<lambda>a. ?x < a) W"
  let ?v = "filter (\<lambda>a. a \<le> ?x) W"
  let ?ps = "tableau_rows (W' # rest)"
  note f = minimaj_ordered_first[OF 3(2)]
  from tableau_rows_above[OF f(2)] have above: "\<forall>i\<in>set (hd ?ps). ?x < i" by simp
  have q: "\<forall>i\<in>set q. i \<le> hd W" using 3(3) by simp
  have fq: "filter (\<lambda>i. hd W < i \<or> e) q = []"
    by (rule filter_none) (use q 3(4) in auto)
  show ?case
  proof (cases "?x < hd W")
    case True
    note t = f(4)[OF True]
    have rows: "tableau_rows (W # W' # rest) = tl ?u # (?v @ hd ?ps) # tl ?ps"
      using True by (simp add: Let_def)
    have "filter (\<lambda>i. hd W < i \<or> e) (tl ?u) = tl ?u"
      by (rule filter_all) (use t in auto)
    moreover have "filter (\<lambda>i. i \<le> ?x) ?v = ?v"
      by (rule filter_all) simp
    moreover have "filter (\<lambda>i. i \<le> ?x) (hd ?ps) = []"
      by (rule filter_none) (use above in auto)
    ultimately have first: "[hd W] @ filter (\<lambda>i. hd W < i \<or> e) (q @ tl ?u)
                              @ filter (\<lambda>i. i \<le> ?x) (?v @ hd ?ps) = W"
      using fq t by simp
    have IH: "blocks_of_rows False (map hd (W' # rest)) (?v @ hd ?ps) (tl ?ps) = W' # rest"
      by (rule 3(1)[OF f(2)]) simp_all
    show ?thesis
      unfolding rows using True first IH by simp
  next
    case False
    note t = f(5)[OF False]
    have rows: "tableau_rows (W # W' # rest) = (tl W @ hd ?ps) # tl ?ps"
      using False by (simp add: Let_def)
    have "filter (\<lambda>i. (hd W < i \<or> e) \<and> i \<le> ?x) q = []"
      by (rule filter_none) (use q 3(4) in auto)
    moreover have "filter (\<lambda>i. (hd W < i \<or> e) \<and> i \<le> ?x) (tl W) = tl W"
      by (rule filter_all) (use t in auto)
    moreover have "filter (\<lambda>i. (hd W < i \<or> e) \<and> i \<le> ?x) (hd ?ps) = []"
      by (rule filter_none) (use above in auto)
    ultimately have first: "[hd W] @ filter (\<lambda>i. (hd W < i \<or> e) \<and> i \<le> ?x) (q @ tl W @ hd ?ps) = W"
      using f(1) by simp
    have "blocks_of_rows False (map hd (W' # rest)) ((q @ tl W) @ hd ?ps) (tl ?ps) = W' # rest"
      by (rule 3(1)[OF f(2)]) (use q t in auto)
    then have IH: "blocks_of_rows False (map hd (W' # rest)) (q @ tl W @ hd ?ps) (tl ?ps) = W' # rest"
      by simp
    show ?thesis
      unfolding rows using False first IH by simp
  qed
qed

lemma to_minimaj_blocks_rows:
  assumes mo: "minimaj_ordered bb"
  shows "to_minimaj_blocks (rev (map rev (tableau_rows bb)) @ [map hd bb]) = Inr bb"
proof -
  let ?P = "tableau_rows bb"
  let ?b = "map hd bb"
  let ?T = "rev (map rev ?P) @ [?b]"
  let ?k = "length ?b"
  let ?ds = "descents ?b"
  let ?breaks = "[0] @ ?ds @ [?k - 1]"
  let ?mu = "map (\<lambda>i. [i]) ?b"
  let ?Z = "zip (runs_from ?b 0 0) ?P"
  let ?G = "\<lambda>mu ((lo, hi), row). foldl (extend_block row lo hi) mu [lo..<hi + 1]"
  from minimaj_ordered_hd[OF mo] have bb: "bb \<noteq> []" by simp
  then have b: "?b \<noteq> []" by simp
  have P: "?P \<noteq> []" by (rule tableau_rows_nonempty)
  have T': "rev (map rev (butlast ?T)) = ?P"
    by (simp add: rev_map comp_def)
  have runs: "runs_from ?b 0 0 = zip (0 # ?ds) (?ds @ [?k - 1])"
    using runs_from_breaks[of ?b "[]" ?b 0 0] b by (simp add: descents_def)
  have lenP: "length ?P = length ?ds + 1"
    using length_tableau_rows[OF bb, of 0 0] unfolding runs by simp
  have tr: "map (\<lambda>f. ((?breaks ! f, ?breaks ! (f + 1)), ?P ! f)) [0..<length ?breaks - 1] = ?Z"
  proof -
    have "map (\<lambda>f. ((?breaks ! f, ?breaks ! (f + 1)), ?P ! f)) [0..<length ?ds + 1]
            = map (\<lambda>f. (((0 # ?ds) ! f, (?ds @ [?k - 1]) ! f), ?P ! f)) [0..<length ?ds + 1]"
      by (rule map_cong[OF refl]) (auto simp add: nth_append nth_Cons')
    also have "\<dots> = zip (zip (0 # ?ds) (?ds @ [?k - 1])) ?P"
      by (rule map_nth_zip3) (simp_all add: lenP)
    finally show ?thesis unfolding runs by simp
  qed
  have fold: "foldl (\<lambda>mu f. foldl (extend_block (?P ! f) (?breaks ! f) (?breaks ! (f + 1)))
                               mu [?breaks ! f..<?breaks ! (f + 1) + 1])
                ?mu [0..<length ?breaks - 1]
              = foldl ?G ?mu ?Z"
    unfolding tr[symmetric] by (simp add: foldl_map del: upt_Suc)
  have his: "\<forall>z\<in>set ?Z. snd (fst z) < ?k"
  proof
    fix z assume "z \<in> set ?Z"
    then have "fst z \<in> set (zip (0 # ?ds) (?ds @ [?k - 1]))"
      unfolding runs by (metis prod.collapse set_zip_leftD)
    then have "snd (fst z) \<in> set (?ds @ [?k - 1])"
      by (metis prod.collapse set_zip_rightD)
    then show "snd (fst z) < ?k"
      using descents_bound[of "snd (fst z)" ?b] b by auto
  qed
  have "foldl ?G ?mu ?Z = map (\<lambda>t. ?mu ! t @ picked ?b t ?Z) [0..<?k]"
    by (rule extend_block_runs[OF his]) simp_all
  also have "\<dots> = map (\<lambda>t. [?b ! t] @ picked ?b t ?Z) [0..<?k]"
    by (rule map_cong[OF refl]) simp
  also have "\<dots> = map (\<lambda>t. [?b ! t] @ picked ?b t (zip (runs_from ?b 0 0) (hd ?P # tl ?P))) [0..<?k]"
    using P by simp
  also have "\<dots> = blocks_of_rows ((0::nat) = 0) ?b (hd ?P) (tl ?P)"
  proof (rule blocks_of_rows_picked[where pre="[]"])
    show "?b = [] @ ?b" by simp
    show "?b \<noteq> []" by (rule b)
    show "(0::nat) = length ([] :: 'a list)" by simp
    show "(0::nat) \<le> 0" by simp
    show "length (runs_from ?b 0 0) \<le> length (hd ?P # tl ?P)"
      using P length_tableau_rows[OF bb, of 0 0] by simp
  qed
  also have "\<dots> = bb"
    using blocks_of_rows_tableau_rows[OF mo, of "[]" True] by simp
  finally have res: "foldl ?G ?mu ?Z = bb" .
  show ?thesis
    unfolding to_minimaj_blocks_def Let_def T'
    using b fold res lenP by (simp del: upt_Suc)
qed

text \<open>
  For a partition \<open>c\<close> with at least one block, \<open>to_tableau\<close> returns a tableau and
  \<open>_to_minimaj_blocks\<close> makes of it the minimaj ordering of the blocks of \<open>c\<close>, whose
  blocks are, as sets, the blocks of \<open>c\<close>.
\<close>

lemma tableau_inverse:
  assumes "valid_omp c" and "c \<noteq> []"
  shows "\<exists>t mu. to_tableau c = Inr t \<and> to_minimaj_blocks t = Inr mu
           \<and> minimaj_blocks c = Inr mu \<and> map Set_of mu = c \<and> length mu = length c
           \<and> (\<forall>W\<in>set mu. W \<noteq> [] \<and> distinct W)"
proof -
  let ?bb = "minimaj_blocks_rec c"
  note props = minimaj_blocks_rec_props[OF assms]
  have "to_minimaj_blocks (rev (map rev (tableau_rows ?bb)) @ [map hd ?bb]) = Inr ?bb"
    by (rule to_minimaj_blocks_rows) (use props in simp)
  moreover have "length ?bb = length c"
    using props by (metis length_map)
  moreover have "\<forall>W\<in>set ?bb. W \<noteq> [] \<and> distinct W"
  proof
    fix W assume W: "W \<in> set ?bb"
    then obtain n where n: "n < length ?bb" "?bb ! n = W" by (auto simp add: in_set_conv_nth)
    have "map set ?bb ! n = map set c ! n" "map length ?bb ! n = map length c ! n"
      using props by simp_all
    then have e: "set W = set (c ! n)" "length W = length (c ! n)"
      using n \<open>length ?bb = length c\<close> by simp_all
    have "c ! n \<in> set c" using n \<open>length ?bb = length c\<close> by simp
    then have "distinct (c ! n)"
      using assms(1) by (simp add: valid_omp_def valid_block_def list_all_iff)
    then have "distinct W" using e by (metis card_distinct distinct_card)
    then show "W \<noteq> [] \<and> distinct W"
      using minimaj_blocks_rec_nonempty[OF assms] W by simp
  qed
  ultimately show ?thesis
    using to_tableau_rows[OF assms] minimaj_blocks_eq_rec[OF assms(1)]
      Set_of_minimaj_blocks_rec[OF assms(1)]
    by blast
qed

section \<open>The inverse of the tableau in a crystal\<close>

lemma init_shape: "init fin sh cs = Inr F \<Longrightarrow> shape F = sh"
  by (auto simp add: init_def Let_def split: if_splits sum.splits)

lemma class_init_shape: "class_init sh cs = Inr F \<Longrightarrow> shape F = sh"
  unfolding class_init_def
  by (cases sh) (auto split: if_splits dest: init_shape)

lemma crystal_OMPs_positive: "crystal_OMPs n ell k = Inr F \<Longrightarrow> 0 < ell"
  by (simp add: crystal_OMPs_def split: if_splits)

lemma crystal_OMPs_shape:
  assumes "crystal_OMPs n ell k = Inr F"
  shows "\<exists>A. shape F = Fixed_A A ell \<or> shape F = Fixed_A_constraints A ell"
proof -
  obtain sh cs where "class_init sh cs = Inr F"
    and "(\<exists>A. sh = Fixed_A A ell) \<or> (\<exists>A. sh = Fixed_A_constraints A ell)"
    using assms unfolding crystal_OMPs_def classcall_private_def
    by (auto simp add: rebinds_Nil Let_def split: if_splits sum.splits)
  then show ?thesis using class_init_shape by blast
qed

text \<open>Membership looks at each block only as a multiset.\<close>

lemma blockwise_same:
  assumes "list_all2 (\<lambda>a b. mset a = mset b) mu c"
  shows "has_valid_blocks mu = has_valid_blocks c"
    and "mset (concat mu) = mset (concat c)"
    and "sum_list (map length mu) = sum_list (map length c)"
    and "sum_list (map sum_list mu) = sum_list (map sum_list c)"
    and "list_all (\<lambda>block. list_all (\<lambda>i. i > (0::int)) block) mu
           = list_all (\<lambda>block. list_all (\<lambda>i. i > 0) block) c"
    and "map Set_of (filter (\<lambda>block. block \<noteq> []) mu)
           = map Set_of (filter (\<lambda>block. block \<noteq> []) c)"
  using assms
proof (induction rule: list_all2_induct)
  case Nil
  {
    case 1 show ?case by simp
  next
    case 2 show ?case by simp
  next
    case 3 show ?case by simp
  next
    case 4 show ?case by simp
  next
    case 5 show ?case by simp
  next
    case 6 show ?case by simp
  }
next
  case (Cons a mu b c)
  have s: "set a = set b" using Cons(1) by (rule mset_eq_setD)
  have l: "length a = length b" using Cons(1) by (rule mset_eq_length)
  have e: "a = [] \<longleftrightarrow> b = []" using l by auto
  have S: "Set_of a = Set_of b" by (simp add: Set_of_def s)
  have sm: "sum_list a = sum_list b" using Cons(1) by (metis sum_mset_sum_list)
  {
    case 1 show ?case using Cons(3) e S l by (simp add: has_valid_blocks_def)
  next
    case 2 show ?case using Cons(4) Cons(1) by simp
  next
    case 3 show ?case using Cons(5) l by simp
  next
    case 4 show ?case using Cons(6) sm by simp
  next
    case 5 show ?case using Cons(7) s by (simp add: list_all_iff)
  next
    case 6 show ?case using Cons(8) e S by simp
  }
qed

lemma sort_mset_eq: "mset xs = mset ys \<Longrightarrow> sort xs = sort ys"
  by (metis mset_sort properties_for_sort sorted_sort)

lemma contains_blockwise:
  assumes "list_all2 (\<lambda>a b. mset a = mset b) mu c"
  shows "contains F mu = contains F c"
    and "element_constructor F mu = element_constructor F c"
proof -
  note b = blockwise_same[OF assms]
  have gm: "get_multiset mu = get_multiset c"
    unfolding get_multiset_def concatenate_def by (rule sort_mset_eq[OF b(2)])
  have st: "set (concatenate mu) = set (concatenate c)"
    unfolding concatenate_def using b(2) by (rule mset_eq_setD)
  have hn: "has_valid_blocks_n n mu = has_valid_blocks_n n c" for n
    unfolding has_valid_blocks_n_def b(1) b(4) b(5) ..
  have hx: "has_valid_blocks_X X mu = has_valid_blocks_X X c" for X
    unfolding has_valid_blocks_X_def b(1) gm ..
  have ha: "has_valid_blocks_A A d mu = has_valid_blocks_A A d c" for A d
    unfolding has_valid_blocks_A_def b(1) b(3) st ..
  have ex: "element_X (get_multiset mu) mu = element_X (get_multiset c) c"
    unfolding element_X_def gm hx b(6) ..
  have sc: "satisfies_constraints F mu = satisfies_constraints F c"
    unfolding satisfies_constraints_def ex ..
  show c: "contains F mu = contains F c"
    unfolding contains_def hn hx ha sc b(1) ..
  show "element_constructor F mu = element_constructor F c"
    unfolding element_constructor_def c b(6) ..
qed

lemma contains_order:
  assumes "crystal_OMPs n ell k = Inr OMPs" and "contains OMPs c = Inr True"
  shows "int (sum_list (map length c)) = ell"
proof -
  from crystal_OMPs_shape[OF assms(1)] obtain A where
    "shape OMPs = Fixed_A A ell \<or> shape OMPs = Fixed_A_constraints A ell" by blast
  then have "0 \<le> ell \<and> has_valid_blocks_A A (nat ell) c"
    using assms(2) by (auto simp add: contains_def split: if_splits)
  then show ?thesis by (simp add: has_valid_blocks_A_def)
qed

lemma members_nonempty:
  assumes "crystal_OMPs n ell k = Inr OMPs" and "contains OMPs c = Inr True"
  shows "c \<noteq> []"
  using contains_order[OF assms] crystal_OMPs_positive[OF assms(1)] by auto

text \<open>The rows that \<open>Element.to_tableau\<close> reads off the word and the breaks of a tableau.\<close>

lemma length_partial_sum_from: "length (partial_sum_from s ls) = length ls + 1"
  by (induction ls arbitrary: s) simp_all

lemma partial_sum_from_0: "partial_sum_from s ls ! 0 = s"
  by (cases ls) simp_all

lemma rows_of_word:
  "map (\<lambda>j. slice (pre @ concat t)
               (partial_sum_from (length pre) (map length t) ! j)
               (partial_sum_from (length pre) (map length t) ! (j + 1)))
       [0..<length t] = t"
proof (induction t arbitrary: pre)
  case Nil
  show ?case by simp
next
  case (Cons r t)
  let ?ps = "partial_sum_from (length pre + length r) (map length t)"
  have up: "[0..<length (r # t)] = 0 # map Suc [0..<length t]"
    by (simp add: upt_conv_Cons map_Suc_upt del: upt_Suc)
  have first: "slice (pre @ concat (r # t)) (length pre) (?ps ! 0) = r"
    by (simp add: slice_def partial_sum_from_0)
  have rest: "map (\<lambda>j. slice (pre @ concat (r # t)) (?ps ! j) (?ps ! (j + 1))) [0..<length t] = t"
    using Cons.IH[of "pre @ r"] by simp
  show ?case
    unfolding up using first rest by (simp add: comp_def del: upt_Suc)
qed

lemma element_to_tableau_rows:
  "element_to_tableau (concatenate t, partial_sum (map length t)) = t"
  using rows_of_word[of "[]" t]
  by (simp add: element_to_tableau_def partial_sum_def concatenate_def length_partial_sum_from)

text \<open>
  The partition without blocks has the tableau \<open>[]\<close>, of which \<open>_to_minimaj_blocks\<close> makes
  nothing (\<open>T[-1]\<close> raises \<open>IndexError\<close>); it belongs to the family of order 0 only, which is
  the family of no crystal.
\<close>

lemma tableau_of_no_blocks:
  "to_tableau ([] :: int omp) = Inr [] \<and> to_minimaj_blocks ([] :: int list list) = Inl IndexError
   \<and> crystal_OMPs n 0 k = Inl AssertionError"
  by (simp add: to_tableau_def to_minimaj_blocks_def crystal_OMPs_def)

text \<open>
  C3. For every ordered multiset partition \<open>c\<close> in the family of a crystal, the family of
  the alphabet \<open>{1, ..., n}\<close>, the order \<open>ell\<close> and \<open>k\<close> blocks, applying the tableau bijection
  and then its inverse recovers \<open>c\<close>: \<open>c.to_tableau()\<close> returns a tableau \<open>t\<close>,
  \<open>_to_minimaj_blocks(t)\<close> is \<open>c.minimaj_blocks()\<close>, whose blocks are as sets the blocks of \<open>c\<close>,
  and \<open>from_tableau(t)\<close> returns the element that the crystal makes of \<open>c\<close>, which reads as
  these blocks.
\<close>

theorem from_tableau_to_tableau:
  assumes "crystal_OMPs n ell k = Inr OMPs" and "valid_omp c" and "contains OMPs c = Inr True"
  shows "\<exists>t b mu. to_tableau c = Inr t \<and> from_tableau n ell k t = Inr b
           \<and> crystal_element_constructor OMPs c = Inr b
           \<and> to_minimaj_blocks (element_to_tableau b) = Inr mu
           \<and> to_minimaj_blocks t = Inr mu \<and> minimaj_blocks c = Inr mu \<and> map Set_of mu = c"
proof -
  have ne: "c \<noteq> []" by (rule members_nonempty[OF assms(1,3)])
  from tableau_inverse[OF assms(2) ne] obtain t mu where
    t: "to_tableau c = Inr t" and mu: "to_minimaj_blocks t = Inr mu"
    and mb: "minimaj_blocks c = Inr mu" and S: "map Set_of mu = c"
    and len: "length mu = length c" and d: "\<forall>W\<in>set mu. W \<noteq> [] \<and> distinct W"
    by blast
  have rel: "list_all2 (\<lambda>a b. mset a = mset b) mu c"
  proof (rule list_all2_all_nthI[OF len])
    fix i assume i: "i < length mu"
    then have "Set_of (mu ! i) = c ! i" using S by (metis nth_map)
    moreover have "distinct (mu ! i)" using d i by simp
    ultimately show "mset (mu ! i) = mset (c ! i)" using mset_Set_of by metis
  qed
  note cb = contains_blockwise[OF rel, of OMPs]
  have cmu: "contains OMPs mu = Inr True" using cb(1) assms(3) by simp
  have "filter (\<lambda>block. block \<noteq> []) c = c"
    using valid_omp_blocks(3)[OF assms(2)] .
  moreover have "map Set_of c = c" using valid_omp_blocks(2)[OF assms(2)] .
  ultimately have ec: "element_constructor OMPs c = Inr c"
    by (simp add: element_constructor_def assms(3))
  then have emu: "element_constructor OMPs mu = Inr c" using cb(2) by simp
  let ?b = "(concatenate t, partial_sum (map length t))"
  have te: "to_element c = Inr ?b" by (simp add: to_element_def t)
  have 1: "crystal_element_constructor OMPs c = Inr ?b"
    by (simp add: crystal_element_constructor_def ec te)
  have 2: "from_tableau n ell k t = Inr ?b"
    by (simp add: from_tableau_def assms(1) mu cmu crystal_element_constructor_def emu te)
  have 3: "to_minimaj_blocks (element_to_tableau ?b) = Inr mu"
    unfolding element_to_tableau_rows by (rule mu)
  from t 1 2 3 mu mb S show ?thesis by blast
qed

text \<open>The docstring of \<open>from_tableau\<close>, for the crystals of \<open>(3, 6, 3)\<close> and \<open>(3, 6, 2)\<close>.\<close>

lemma from_tableau_docstring:
  "to_minimaj_blocks [[1], [3, 2], [1, 3, 2 :: int]] = Inr [[1, 2, 3], [3, 1], [2]]
   \<and> to_tableau [[1, 2, 3], [1, 3], [2 :: int]] = Inr [[1], [3, 2], [1, 3, 2]]
   \<and> from_tableau 3 6 3 [[1], [3, 2], [1, 3, 2]] = Inr ([1, 3, 2, 1, 3, 2], [0, 1, 3, 6])
   \<and> from_tableau 3 6 2 [[1], [3, 2], [1, 3, 2]] = Inl AssertionError"
  by code_simp

lemma valid_12_23: "valid_omp [[1, 2], [2, 3 :: int]]"
  by (simp add: valid_omp_def valid_block_def)

lemma contains_342: "contains OMPs_342 [[1, 2], [2, 3]] = Inr True"
  by code_simp

lemma to_tableau_12_23: "to_tableau [[1, 2], [2, 3 :: int]] = Inr [[3, 2], [1, 2]]"
  by code_simp

lemma to_minimaj_blocks_12_23: "to_minimaj_blocks [[3, 2], [1, 2 :: int]] = Inr [[1, 2], [2, 3]]"
  by code_simp

theorem from_tableau_to_tableau_witness:
  "crystal_OMPs 3 4 2 = Inr OMPs_342 \<and> valid_omp [[1, 2], [2, 3 :: int]]
   \<and> contains OMPs_342 [[1, 2], [2, 3]] = Inr True
   \<and> to_tableau [[1, 2], [2, 3 :: int]] = Inr [[3, 2], [1, 2]]
   \<and> from_tableau 3 4 2 [[3, 2], [1, 2]] = crystal_element_constructor OMPs_342 [[1, 2], [2, 3]]
   \<and> (\<exists>b. from_tableau 3 4 2 [[3, 2], [1, 2]] = Inr b
          \<and> to_minimaj_blocks (element_to_tableau b) = Inr [[1, 2], [2, 3]])"
proof -
  from from_tableau_to_tableau[OF crystal_OMPs_342 valid_12_23 contains_342]
  obtain t b mu where T: "to_tableau [[1, 2], [2, 3 :: int]] = Inr t"
    and F: "from_tableau 3 4 2 t = Inr b"
    and E: "crystal_element_constructor OMPs_342 [[1, 2], [2, 3]] = Inr b"
    and B: "to_minimaj_blocks (element_to_tableau b) = Inr mu"
    and M: "to_minimaj_blocks t = Inr mu"
    by blast
  from T have t: "t = [[3, 2], [1, 2]]" by (simp add: to_tableau_12_23)
  from M have mu: "mu = [[1, 2], [2, 3]]" unfolding t by (simp add: to_minimaj_blocks_12_23)
  have 1: "from_tableau 3 4 2 [[3, 2], [1, 2]] = crystal_element_constructor OMPs_342 [[1, 2], [2, 3]]"
    using F E unfolding t by simp
  have 2: "\<exists>b. from_tableau 3 4 2 [[3, 2], [1, 2]] = Inr b
          \<and> to_minimaj_blocks (element_to_tableau b) = Inr [[1, 2], [2, 3]]"
    using F B unfolding t mu by blast
  from 1 2 crystal_OMPs_342 valid_12_23 contains_342 to_tableau_12_23
  show ?thesis by blast
qed

end
